theory Spec2Isabelle
  imports Main "HOL-Library.Sublist"
begin

section \<open>Exceptions of the flow and queue modules\<close>

text \<open>
  Every exception class that the modelled code raises or catches is a constructor.
  \<open>FlowError\<close> is \<^verbatim>\<open>flow.FlowError\<close>; \<open>DBSubjectLockError\<close> and \<open>DatastoreError\<close> are
  \<^verbatim>\<open>data_store.DBSubjectLockError\<close> and \<^verbatim>\<open>data_store.Error\<close>; the others are Python's own.
\<close>

datatype error =
    FlowError string
  | RuntimeError string
  | AttributeError
  | IOError string
  | LockError
  | DBSubjectLockError
  | DatastoreError string
  | ZeroDivisionError
  | OverflowError

section \<open>Messages (rdf_flows.GrrMessage) and request states\<close>

datatype AuthorizationState = UNAUTHENTICATED | AUTHENTICATED | DESYNCHRONIZED

datatype MessageType = MESSAGE | STATUS | ITERATOR

datatype ReturnedStatus =
    OK | IOERROR | RETRANSMISSION_DETECTED | CLIENT_KILLED | NETWORK_LIMIT_EXCEEDED
  | GENERIC_ERROR

text \<open>
  \<^verbatim>\<open>rdf_flows.GrrStatus\<close>. Its field \<^verbatim>\<open>status\<close> is written \<open>returned_status\<close> here, since the
  collator has an attribute \<^verbatim>\<open>status\<close> of its own.
\<close>

record GrrStatus =
  returned_status :: ReturnedStatus
  error_message :: string

text \<open>
  The fields of a message that \<^verbatim>\<open>flow.py\<close> and \<^verbatim>\<open>queue_manager.py\<close> read or write.
  The payload is an RDF value of a type \<open>'p\<close> that this development does not look into.
\<close>

record 'p GrrMessage =
  session_id :: string
  request_id :: int
  response_id :: int
  name :: string
  auth_state :: AuthorizationState
  type :: MessageType
  args_rdf_name :: "string option"
  payload :: 'p
  queue :: string
  task_id :: int
  priority :: int
  task_ttl :: int
  eta :: int
  last_lease :: string

text \<open>
  \<^verbatim>\<open>rdf_flows.RequestState\<close>. Its optional field \<^verbatim>\<open>request\<close> (the client request, tested
  with \<^verbatim>\<open>HasField("request")\<close>) is written \<open>client_request\<close> here, since the collator has
  an attribute \<^verbatim>\<open>request\<close> of its own; its field \<^verbatim>\<open>id\<close> is written \<open>request_state_id\<close>.
\<close>

record 'p RequestState =
  request_state_id :: int
  next_state :: string
  client_request :: "'p GrrMessage option"

section \<open>The response collator (class Responses of flow.py)\<close>

record ('p, 'i) Responses =
  status :: "GrrStatus option"
  success :: bool
  request :: "'p RequestState option"
  auth_required :: bool
  responses :: "'p GrrMessage list"
  dropped_responses :: "'p GrrMessage list"
  iterator :: "'i option"

text \<open>
  The \<^verbatim>\<open>for msg in responses\<close> loop of \<^verbatim>\<open>Responses.__init__\<close>, over the messages that are
  still to be visited. The constructors \<^verbatim>\<open>rdf_flows.GrrStatus\<close> and \<^verbatim>\<open>rdf_client.Iterator\<close>
  belong to the RDF value library and are taken as the parameters \<open>mkStatus\<close> and
  \<open>mkIterator\<close>. The \<^verbatim>\<open>break\<close> after a status message is the equation that does not recurse.
\<close>

fun filter_responses ::
  "('p \<Rightarrow> GrrStatus) \<Rightarrow> ('p \<Rightarrow> 'i) \<Rightarrow> 'p GrrMessage list \<Rightarrow> ('p, 'i) Responses
    \<Rightarrow> ('p, 'i) Responses" where
  "filter_responses mkStatus mkIterator [] r = r"
| "filter_responses mkStatus mkIterator (msg # msgs) r =
     (if auth_state msg = DESYNCHRONIZED \<or>
         (auth_required r \<and> auth_state msg \<noteq> AUTHENTICATED)
      then filter_responses mkStatus mkIterator msgs
             (r\<lparr>dropped_responses := dropped_responses r @ [msg]\<rparr>)
      else if type msg = ITERATOR
      then filter_responses mkStatus mkIterator msgs
             (r\<lparr>iterator := Some (mkIterator (payload msg))\<rparr>)
      else if type msg = STATUS
      then r\<lparr>status := Some (mkStatus (payload msg)),
             success := (returned_status (mkStatus (payload msg)) = OK)\<rparr>
      else filter_responses mkStatus mkIterator msgs
             (r\<lparr>responses := responses r @ [msg]\<rparr>))"

text \<open>
  \<^verbatim>\<open>Responses.__init__(request, responses, auth_required)\<close>. The argument \<open>rs\<close> is \<open>None\<close>
  for \<^verbatim>\<open>responses=None\<close>; \<^verbatim>\<open>if responses:\<close> is false for \<open>None\<close> and for the empty list.
  \<^verbatim>\<open>responses.sort(key=attrgetter("response_id"))\<close> is a stable sort, as \<open>sort_key\<close> is.
  Logging (\<^verbatim>\<open>_LogFlowState\<close>) writes nothing that the collator reads and is left out.
\<close>

definition Responses_init ::
  "('p \<Rightarrow> GrrStatus) \<Rightarrow> ('p \<Rightarrow> 'i) \<Rightarrow> 'p RequestState option
    \<Rightarrow> 'p GrrMessage list option \<Rightarrow> bool \<Rightarrow> error + ('p, 'i) Responses" where
  "Responses_init mkStatus mkIterator req rs auth =
     (let r0 = \<lparr>status = None, success = True, request = req, auth_required = auth,
                 responses = [], dropped_responses = [], iterator = None\<rparr>
      in case rs of
           None \<Rightarrow> Inr r0
         | Some msgs \<Rightarrow>
             if msgs = [] then Inr r0
             else
               let r = filter_responses mkStatus mkIterator (sort_key response_id msgs) r0
               in if status r = None
                  then Inl (FlowError ''No valid Status message.'')
                  else Inr r)"

text \<open>
  The \<^verbatim>\<open>for message in self._responses\<close> loop of \<^verbatim>\<open>Responses.__iter__\<close>. A generator can
  yield some values and then raise, so the result is the list of messages whose payload
  was yielded, in order, and the exception that ended the iteration, if any.
  \<open>old\<close> is \<^verbatim>\<open>old_response_id\<close> (\<open>None\<close> at the start).
\<close>

fun iter_loop ::
  "bool \<Rightarrow> string list \<Rightarrow> int option \<Rightarrow> 'p GrrMessage list
    \<Rightarrow> 'p GrrMessage list \<times> error option" where
  "iter_loop is_client_request expected old [] = ([], None)"
| "iter_loop is_client_request expected old (message # rest) =
     (if Some (response_id message) = old
      then iter_loop is_client_request expected old rest
      else if type message = MESSAGE
      then
        (if is_client_request
         then
           (if expected = []
            then ([], Some (RuntimeError ''Client action does not specify out_rdfvalue.''))
            else
              (case args_rdf_name message of
                 None \<Rightarrow>
                   ([], Some (RuntimeError ''Deprecated message format received.''))
               | Some rdf_name \<Rightarrow>
                   if rdf_name = []
                   then ([], Some (RuntimeError ''Deprecated message format received.''))
                   else if rdf_name \<notin> set expected
                   then ([], Some (RuntimeError ''Response type was not the expected one.''))
                   else
                     (case iter_loop is_client_request expected
                             (Some (response_id message)) rest of
                        (ys, e) \<Rightarrow> (message # ys, e))))
         else
           (case iter_loop is_client_request expected (Some (response_id message)) rest of
              (ys, e) \<Rightarrow> (message # ys, e)))
      else iter_loop is_client_request expected (Some (response_id message)) rest)"

text \<open>
  \<^verbatim>\<open>Responses.__iter__\<close>. \<open>action_registry\<close> is \<^verbatim>\<open>server_stubs.ClientActionStub.classes\<close>,
  mapping an action name to the class names of its \<^verbatim>\<open>out_rdfvalues\<close>. With
  \<^verbatim>\<open>request=None\<close> the call \<^verbatim>\<open>self.request.HasField\<close> raises \<^verbatim>\<open>AttributeError\<close>.
\<close>

definition iter_messages ::
  "(string \<rightharpoonup> string list) \<Rightarrow> ('p, 'i) Responses \<Rightarrow> 'p GrrMessage list \<times> error option" where
  "iter_messages action_registry r =
     (case request r of
        None \<Rightarrow> ([], Some AttributeError)
      | Some rq \<Rightarrow>
          (case client_request rq of
             None \<Rightarrow> iter_loop False [] None (responses r)
           | Some creq \<Rightarrow>
               (case action_registry (name creq) of
                  None \<Rightarrow> ([], Some (RuntimeError ''Got unknown client action.''))
                | Some expected \<Rightarrow> iter_loop True expected None (responses r))))"

definition Responses_iter ::
  "(string \<rightharpoonup> string list) \<Rightarrow> ('p, 'i) Responses \<Rightarrow> 'p list \<times> error option" where
  "Responses_iter action_registry r =
     (map payload (fst (iter_messages action_registry r)), snd (iter_messages action_registry r))"

text \<open>\<^verbatim>\<open>Responses.__len__\<close>.\<close>

definition Responses_len :: "('p, 'i) Responses \<Rightarrow> nat" where
  "Responses_len r = length (responses r)"

subsection \<open>Reference definitions for the collator\<close>

text \<open>
  The condition under which \<^verbatim>\<open>Responses.__init__\<close> drops a message as not authenticated:
  the first test of its loop, named so that statements can speak of the records kept.
\<close>

definition is_dropped :: "bool \<Rightarrow> 'p GrrMessage \<Rightarrow> bool" where
  "is_dropped auth msg =
     (auth_state msg = DESYNCHRONIZED \<or> (auth \<and> auth_state msg \<noteq> AUTHENTICATED))"

text \<open>
  What the specification asks of the iteration: of the records sharing a response id only
  the first is delivered. This follows the specification's words, not the code.
\<close>

fun first_per_response_id :: "'p GrrMessage list \<Rightarrow> 'p GrrMessage list" where
  "first_per_response_id [] = []"
| "first_per_response_id (m # ms) =
     m # first_per_response_id (filter (\<lambda>x. response_id x \<noteq> response_id m) ms)"

text \<open>
  The records the specification expects to be delivered for a list of authenticated
  responses: in response-id order, the message records before the first status record,
  one per response id.
\<close>

definition collated :: "'p GrrMessage list \<Rightarrow> 'p GrrMessage list" where
  "collated msgs =
     first_per_response_id
       (filter (\<lambda>m. type m = MESSAGE)
          (takeWhile (\<lambda>m. type m \<noteq> STATUS) (sort_key response_id msgs)))"

text \<open>Concrete responses: ids 1, 2, 2, 3 and a status record at id 5.\<close>

definition example_message :: "int \<Rightarrow> MessageType \<Rightarrow> string \<Rightarrow> string GrrMessage" where
  "example_message rid t p =
     \<lparr>session_id = ''F:1'', request_id = 1, response_id = rid, name = [],
      auth_state = AUTHENTICATED, type = t, args_rdf_name = None, payload = p,
      queue = [], task_id = 0, priority = 0, task_ttl = 5, eta = 0, last_lease = []\<rparr>"

definition example_responses :: "string GrrMessage list" where
  "example_responses =
     [example_message 1 MESSAGE ''a'', example_message 2 MESSAGE ''b'',
      example_message 2 MESSAGE ''b2'', example_message 3 MESSAGE ''c'',
      example_message 5 STATUS ''ok'']"

definition example_status :: "string \<Rightarrow> GrrStatus" where
  "example_status p =
     \<lparr>returned_status = (if p = ''ok'' then OK else GENERIC_ERROR), error_message = p\<rparr>"

definition example_request :: "string RequestState" where
  "example_request = \<lparr>request_state_id = 1, next_state = ''Process'', client_request = None\<rparr>"

section \<open>The task queue manager (class QueueManager of queue_manager.py)\<close>

subsection \<open>Decimal rendering of integers\<close>

text \<open>Python's \<^verbatim>\<open>str\<close> and \<^verbatim>\<open>"%s"\<close> on an integer, and \<^verbatim>\<open>"%08d"\<close>.\<close>

definition digit_char :: "nat \<Rightarrow> char" where
  "digit_char d = ''0123456789'' ! d"

function str_nat :: "nat \<Rightarrow> string" where
  "str_nat n = (if n < 10 then [digit_char n] else str_nat (n div 10) @ [digit_char (n mod 10)])"
  by pat_completeness auto
termination
  by (relation "measure (\<lambda>n. n)") auto

definition str_int :: "int \<Rightarrow> string" where
  "str_int i = (if i < 0 then CHR ''-'' # str_nat (nat (- i)) else str_nat (nat i))"

definition zero_pad :: "nat \<Rightarrow> string \<Rightarrow> string" where
  "zero_pad w s = replicate (w - length s) CHR ''0'' @ s"

definition format_08d :: "int \<Rightarrow> string" where
  "format_08d i =
     (if i < 0 then CHR ''-'' # zero_pad 7 (str_nat (nat (- i))) else zero_pad 8 (str_nat (nat i)))"

subsection \<open>The data store and the process environment\<close>

text \<open>
  A row of the data store: the cells \<open>(predicate, value, timestamp)\<close> of one subject.
  A task is stored serialized (\<^verbatim>\<open>SerializeToString\<close>, \<^verbatim>\<open>FromSerializedString\<close>); the model
  keeps the message itself.
\<close>

type_synonym 'p row = "(string \<times> 'p GrrMessage \<times> int) list"

text \<open>
  The state outside the queue manager that its methods read and write: the rows of
  \<^verbatim>\<open>data_store.DB\<close> by subject, and the counters of \<^verbatim>\<open>stats.STATS\<close>.
\<close>

record 'p world =
  db :: "string \<Rightarrow> 'p row"
  counters :: "string \<Rightarrow> nat"

text \<open>
  What one call reads from its environment: \<open>now\<close> is \<^verbatim>\<open>rdfvalue.RDFDatetime.Now()\<close> and
  \<open>time_time\<close> is \<^verbatim>\<open>long(time.time() * 1e6)\<close>, both in microseconds; \<open>hostname\<close> and \<open>pid\<close>
  are \<^verbatim>\<open>socket.gethostname()\<close> and \<^verbatim>\<open>os.getpid()\<close>; \<open>max_ttl\<close> is the constant
  \<^verbatim>\<open>rdf_flows.GrrMessage.max_ttl\<close>. The data store is a collaborator whose calls can raise:
  \<open>lock_error\<close>, \<open>resolve_error\<close> and \<open>multiset_error\<close> give the exception, if any, that
  \<^verbatim>\<open>LockRetryWrapper\<close>, \<^verbatim>\<open>ResolvePrefix\<close> and \<^verbatim>\<open>MultiSet\<close> raise in this call.
\<close>

record env =
  now :: int
  time_time :: int
  hostname :: string
  pid :: int
  max_ttl :: int
  lock_error :: "error option"
  resolve_error :: "error option"
  multiset_error :: "error option"

definition IncrementCounter :: "string \<Rightarrow> 'p world \<Rightarrow> 'p world" where
  "IncrementCounter metric w = w\<lparr>counters := (counters w)(metric := counters w metric + 1)\<rparr>"

text \<open>
  Modelled from the spec: \<^verbatim>\<open>data_store.LockRetryWrapper(subject, lease_time)\<close>, "yielding a
  scoped, auto-expiring exclusive lock"; "lock acquisition failure" is an exception. The
  lock object carries the subject it locks, which is all that \<^verbatim>\<open>QueryAndOwn\<close> reads of it.
\<close>

definition LockRetryWrapper :: "env \<Rightarrow> string \<Rightarrow> error + string" where
  "LockRetryWrapper e subject = (case lock_error e of Some err \<Rightarrow> Inl err | None \<Rightarrow> Inr subject)"

text \<open>
  Modelled from the spec: \<^verbatim>\<open>data_store.ResolvePrefix(subject, prefix, timeRange)\<close>, the
  "prefix scan" of the key-value store: the cells of the subject whose predicate starts
  with the prefix and whose timestamp lies in the range, in the order of the row.
\<close>

definition ResolvePrefix ::
  "env \<Rightarrow> 'p world \<Rightarrow> string \<Rightarrow> string \<Rightarrow> int \<times> int \<Rightarrow> error + 'p row" where
  "ResolvePrefix e w subject pfx time_range =
     (case resolve_error e of
        Some err \<Rightarrow> Inl err
      | None \<Rightarrow>
          Inr (filter (\<lambda>(predicate, value, ts).
                         prefix pfx predicate \<and> fst time_range \<le> ts \<and> ts \<le> snd time_range)
                 (db w subject)))"

text \<open>
  Modelled from the spec: \<^verbatim>\<open>data_store.MultiSet(subject, {column: [values]}, timestamp,
  toDelete)\<close> with \<^verbatim>\<open>replace=True\<close>. The columns of \<open>to_delete\<close> are removed; a column that
  is set loses its old cells and gets one cell per value, at the given timestamp. A column
  that the row already has keeps its place in the row; a new column is added at the end.
\<close>

definition MultiSet ::
  "env \<Rightarrow> 'p world \<Rightarrow> string \<Rightarrow> (string \<times> 'p GrrMessage list) list \<Rightarrow> int \<Rightarrow> string set
    \<Rightarrow> error + 'p world" where
  "MultiSet e w subject values ts to_delete =
     (case multiset_error e of
        Some err \<Rightarrow> Inl err
      | None \<Rightarrow>
          (let kept = filter (\<lambda>(predicate, value, t). predicate \<notin> to_delete) (db w subject);
               replaced =
                 concat (map (\<lambda>(predicate, value, t).
                                case map_of values predicate of
                                  None \<Rightarrow> [(predicate, value, t)]
                                | Some vs \<Rightarrow> map (\<lambda>v. (predicate, v, ts)) vs) kept);
               added =
                 concat (map (\<lambda>(predicate, vs).
                                if predicate \<in> fst ` set kept then []
                                else map (\<lambda>v. (predicate, v, ts)) vs) values)
           in Inr (w\<lparr>db := (db w)(subject := replaced @ added)\<rparr>)))"

subsection \<open>The manager object\<close>

text \<open>
  \<^verbatim>\<open>rdf_flows.GrrNotification\<close>. Its fields \<^verbatim>\<open>session_id\<close>, \<^verbatim>\<open>timestamp\<close> and \<^verbatim>\<open>priority\<close> carry
  the prefix \<open>n_\<close> here, since a message has fields of these names too.
\<close>

record GrrNotification =
  n_session_id :: string
  n_timestamp :: "int option"
  n_priority :: int
  in_progress :: bool
  first_queued :: int
  last_status :: int

text \<open>
  The attributes of a \<^verbatim>\<open>QueueManager\<close>. \<open>token\<close> is the user name of the access token, if
  there is a token. The dictionaries \<^verbatim>\<open>client_messages_to_delete\<close> and \<^verbatim>\<open>notifications\<close> are
  association lists, in the order in which their keys were first set.
\<close>

record ('p, 'r) QueueManager =
  token :: "string option"
  frozen_timestamp :: "int option"
  request_queue :: "('r \<times> int option) list"
  response_queue :: "('p GrrMessage \<times> int option) list"
  requests_to_delete :: "'r list"
  client_messages_to_delete :: "(string \<times> int list) list"
  new_client_messages :: "('p GrrMessage \<times> int option) list"
  notifications :: "(string \<times> GrrNotification) list"
  num_notification_shards :: nat

text \<open>\<^verbatim>\<open>TASK_PREDICATE_PREFIX\<close> and \<^verbatim>\<open>QueueManager._TaskIdToColumn\<close>.\<close>

definition TASK_PREDICATE_PREFIX :: string where
  "TASK_PREDICATE_PREFIX = ''task:''"

definition TaskIdToColumn :: "int \<Rightarrow> string" where
  "TaskIdToColumn tid = TASK_PREDICATE_PREFIX @ format_08d tid"

subsection \<open>QueryAndOwn\<close>

text \<open>
  \<^verbatim>\<open>self.frozen_timestamp or rdfvalue.RDFDatetime.Now()\<close>: the frozen timestamp, unless it is
  \<^verbatim>\<open>None\<close> or zero, and the time now otherwise.
\<close>

definition frozen_or_now :: "env \<Rightarrow> ('p, 'r) QueueManager \<Rightarrow> int" where
  "frozen_or_now e m =
     (case frozen_timestamp m of
        None \<Rightarrow> now e
      | Some t \<Rightarrow> if t \<noteq> 0 then t else now e)"

text \<open>
  Python computes \<^verbatim>\<open>lease_seconds * 1e6\<close> in double precision. \<open>bit_length\<close> is the number of
  binary digits of a natural number, and \<open>nearest_double\<close> is the double nearest to an
  integer, ties going to the even significand of 53 bits, as an integer; it is \<open>None\<close> when
  the integer is beyond the range of a double.
\<close>

function bit_length :: "nat \<Rightarrow> nat" where
  "bit_length n = (if n = 0 then 0 else Suc (bit_length (n div 2)))"
  by pat_completeness auto
termination
  by (relation "measure (\<lambda>n. n)") auto

declare bit_length.simps [simp del]

definition nearest_double :: "int \<Rightarrow> int option" where
  "nearest_double n =
     (let a = nat \<bar>n\<bar>;
          k = bit_length a - 53;
          q = a div 2 ^ k;
          r = a mod 2 ^ k;
          q1 = (if 2 ^ k < 2 * r \<or> (2 ^ k = 2 * r \<and> odd q) then q + 1 else q)
      in if 2 ^ 1024 \<le> q1 * 2 ^ k then None else Some (sgn n * int (q1 * 2 ^ k)))"

text \<open>
  \<^verbatim>\<open>long(lease_seconds * 1e6)\<close> for a whole number of seconds: the integer is converted to a
  double, the product with the double \<^verbatim>\<open>1e6\<close> is rounded to a double, and \<^verbatim>\<open>long\<close> of it is
  exact, since the product is whole. The conversion of an integer beyond the range of a
  double raises \<^verbatim>\<open>OverflowError\<close>, and so does \<^verbatim>\<open>long\<close> of an infinite product.
\<close>

definition long_times_1e6 :: "int \<Rightarrow> error + int" where
  "long_times_1e6 lease_seconds =
     (case nearest_double lease_seconds of
        None \<Rightarrow> Inl OverflowError
      | Some x \<Rightarrow>
          (case nearest_double (x * 1000000) of
             None \<Rightarrow> Inl OverflowError
           | Some y \<Rightarrow> Inr y))"

text \<open>
  The local variables of \<^verbatim>\<open>_QueryAndOwn\<close> during its loop, together with the world, whose
  counters the loop increments.
\<close>

record 'p lease_scan =
  tasks :: "'p GrrMessage list"
  delete_attrs :: "string set"
  serialized_tasks_dict :: "(string \<times> 'p GrrMessage list) list"
  scan_world :: "'p world"

text \<open>\<^verbatim>\<open>d.setdefault(key, []).append(value)\<close> on an association list.\<close>

definition setdefault_append :: "'k \<Rightarrow> 'v \<Rightarrow> ('k \<times> 'v list) list \<Rightarrow> ('k \<times> 'v list) list" where
  "setdefault_append k v d =
     (case map_of d k of
        None \<Rightarrow> d @ [(k, [v])]
      | Some vs \<Rightarrow> map (\<lambda>(k', vs'). if k' = k then (k', vs' @ [v]) else (k', vs')) d)"

text \<open>
  The \<^verbatim>\<open>for predicate, task, timestamp in ...\<close> loop of \<^verbatim>\<open>_QueryAndOwn\<close>, over the cells still
  to be visited. \<open>lease_tag\<close> is the string written to \<^verbatim>\<open>last_lease\<close>. The \<^verbatim>\<open>break\<close> is the
  branch that returns the scan state without recursing.
\<close>

fun QueryAndOwn_loop ::
  "string \<Rightarrow> int \<Rightarrow> int \<Rightarrow> 'p row \<Rightarrow> 'p lease_scan \<Rightarrow> 'p lease_scan" where
  "QueryAndOwn_loop lease_tag mttl limit [] s = s"
| "QueryAndOwn_loop lease_tag mttl limit ((predicate, task, timestamp) # rest) s =
     (let task1 = task\<lparr>eta := timestamp, last_lease := lease_tag, task_ttl := task_ttl task - 1\<rparr>
      in if task_ttl task1 \<le> 0
         then QueryAndOwn_loop lease_tag mttl limit rest
                (s\<lparr>delete_attrs := insert predicate (delete_attrs s),
                   scan_world := IncrementCounter ''grr_task_ttl_expired_count'' (scan_world s)\<rparr>)
         else
           (let s1 = (if task_ttl task1 \<noteq> mttl - 1
                      then s\<lparr>scan_world :=
                             IncrementCounter ''grr_task_retransmission_count'' (scan_world s)\<rparr>
                      else s);
                s2 = s1\<lparr>serialized_tasks_dict :=
                          setdefault_append predicate task1 (serialized_tasks_dict s1),
                        tasks := tasks s1 @ [task1]\<rparr>
            in if int (length (tasks s2)) \<ge> limit
               then s2
               else QueryAndOwn_loop lease_tag mttl limit rest s2))"

text \<open>
  \<^verbatim>\<open>QueueManager._QueryAndOwn(subject, lease_seconds, limit, user)\<close>, for a whole number of
  seconds. The result is what the call returns or raises, and the world it leaves: counters
  that were incremented before an exception stay incremented.
\<close>

definition QueryAndOwn_inner ::
  "env \<Rightarrow> ('p, 'r) QueueManager \<Rightarrow> 'p world \<Rightarrow> string \<Rightarrow> int \<Rightarrow> int \<Rightarrow> string
    \<Rightarrow> (error + 'p GrrMessage list) \<times> 'p world" where
  "QueryAndOwn_inner e m w subject lease_seconds limit user =
     (case long_times_1e6 lease_seconds of
        Inl err \<Rightarrow> (Inl err, w)
      | Inr lease \<Rightarrow>
          (case ResolvePrefix e w subject TASK_PREDICATE_PREFIX (0, frozen_or_now e m) of
             Inl err \<Rightarrow> (Inl err, w)
           | Inr cells \<Rightarrow>
               (let s = QueryAndOwn_loop (user @ ''@'' @ hostname e @ '':'' @ str_int (pid e))
                          (max_ttl e) limit cells
                          \<lparr>tasks = [], delete_attrs = {}, serialized_tasks_dict = [],
                           scan_world = w\<rparr>
                in if delete_attrs s \<noteq> {} \<or> serialized_tasks_dict s \<noteq> []
                   then
                     (case MultiSet e (scan_world s) subject (serialized_tasks_dict s)
                             (time_time e + lease) (delete_attrs s) of
                        Inl err \<Rightarrow> (Inl err, scan_world s)
                      | Inr w' \<Rightarrow> (Inr (tasks s), w'))
                   else (Inr (tasks s), scan_world s))))"

text \<open>
  \<^verbatim>\<open>QueueManager.QueryAndOwn(queue, lease_seconds, limit)\<close>: the two \<^verbatim>\<open>except\<close> clauses catch
  \<^verbatim>\<open>data_store.DBSubjectLockError\<close> and \<^verbatim>\<open>data_store.Error\<close>; any other exception goes on
  to the caller.
\<close>

definition QueryAndOwn ::
  "env \<Rightarrow> ('p, 'r) QueueManager \<Rightarrow> 'p world \<Rightarrow> string \<Rightarrow> int \<Rightarrow> int
    \<Rightarrow> (error + 'p GrrMessage list) \<times> 'p world" where
  "QueryAndOwn e m w q lease_seconds limit =
     (let user = (case token m of Some username \<Rightarrow> username | None \<Rightarrow> [])
      in case
           (case LockRetryWrapper e q of
              Inl err \<Rightarrow> (Inl err, w)
            | Inr subject \<Rightarrow> QueryAndOwn_inner e m w subject lease_seconds limit user)
         of
           (Inl DBSubjectLockError, w') \<Rightarrow> (Inr [], w')
         | (Inl (DatastoreError msg), w') \<Rightarrow> (Inr [], w')
         | (Inl err, w') \<Rightarrow> (Inl err, w')
         | (Inr leased, w') \<Rightarrow> (Inr leased, w'))"

text \<open>
  Successive calls of \<^verbatim>\<open>QueryAndOwn\<close> on one queue, each with its own environment, manager,
  lease time and limit: the results of the calls in order, and the final world.
\<close>

fun QueryAndOwn_calls ::
  "(env \<times> ('p, 'r) QueueManager \<times> int \<times> int) list \<Rightarrow> string \<Rightarrow> 'p world
    \<Rightarrow> (error + 'p GrrMessage list) list \<times> 'p world" where
  "QueryAndOwn_calls [] q w = ([], w)"
| "QueryAndOwn_calls ((e, m, lease_seconds, limit) # cs) q w =
     (case QueryAndOwn e m w q lease_seconds limit of
        (res, w') \<Rightarrow>
          (case QueryAndOwn_calls cs q w' of (ress, w'') \<Rightarrow> (res # ress, w'')))"

subsection \<open>QueueNotification\<close>

text \<open>
  \<^verbatim>\<open>QueueManager.QueueNotification(notification, timestamp)\<close>. The key is
  \<^verbatim>\<open>"%s!%s" % (session_id, ts_str)\<close>. The call with keyword arguments builds the
  notification from them first and is the call with that notification.
\<close>

definition notification_key :: "string \<Rightarrow> int option \<Rightarrow> string" where
  "notification_key sid ts =
     sid @ ''!'' @ (case ts of None \<Rightarrow> ''None'' | Some t \<Rightarrow> str_int t)"

definition assign :: "'k \<Rightarrow> 'v \<Rightarrow> ('k \<times> 'v) list \<Rightarrow> ('k \<times> 'v) list" where
  "assign k v d =
     (if k \<in> fst ` set d then map (\<lambda>(k', v'). if k' = k then (k', v) else (k', v')) d
      else d @ [(k, v)])"

definition QueueNotification ::
  "('p, 'r) QueueManager \<Rightarrow> GrrNotification \<Rightarrow> int option \<Rightarrow> ('p, 'r) QueueManager" where
  "QueueNotification m notification timestamp =
     (if n_session_id notification \<noteq> []
      then
        (let timestamp1 = (case timestamp of None \<Rightarrow> frozen_timestamp m | Some t \<Rightarrow> Some t);
             notification1 = notification\<lparr>n_timestamp := timestamp1\<rparr>;
             key = notification_key (n_session_id notification1) timestamp1
         in case map_of (notifications m) key of
              Some existing \<Rightarrow>
                if last_status existing < last_status notification1
                then m\<lparr>notifications := assign key notification1 (notifications m)\<rparr>
                else m
            | None \<Rightarrow> m\<lparr>notifications := assign key notification1 (notifications m)\<rparr>)
      else m)"

subsection \<open>Reference definitions for QueryAndOwn\<close>

text \<open>
  The following definitions describe a lease call from outside, for the statements about
  it: what a cell's task looks like once leased, which cells survive the decrement of
  their TTL, which cells of the visible ones the loop visits before it stops, and the row
  that remains.
\<close>

definition leased :: "string \<Rightarrow> string \<times> 'p GrrMessage \<times> int \<Rightarrow> 'p GrrMessage" where
  "leased lease_tag c =
     (fst (snd c))\<lparr>eta := snd (snd c), last_lease := lease_tag,
                   task_ttl := task_ttl (fst (snd c)) - 1\<rparr>"

definition survives :: "string \<times> 'p GrrMessage \<times> int \<Rightarrow> bool" where
  "survives c = (0 < task_ttl (fst (snd c)) - 1)"

fun scanned :: "int \<Rightarrow> 'p row \<Rightarrow> nat \<Rightarrow> 'p row" where
  "scanned limit [] n = []"
| "scanned limit (c # cs) n =
     c # (if survives c
          then (if limit \<le> int (Suc n) then [] else scanned limit cs (Suc n))
          else scanned limit cs n)"

definition visible_cells :: "env \<Rightarrow> ('p, 'r) QueueManager \<Rightarrow> 'p world \<Rightarrow> string \<Rightarrow> 'p row" where
  "visible_cells e m w q =
     filter (\<lambda>(predicate, value, ts).
               prefix TASK_PREDICATE_PREFIX predicate \<and> 0 \<le> ts \<and>
               ts \<le> frozen_or_now e m)
       (db w q)"

definition lease_tag_of :: "env \<Rightarrow> ('p, 'r) QueueManager \<Rightarrow> string" where
  "lease_tag_of e m =
     (case token m of Some username \<Rightarrow> username | None \<Rightarrow> []) @ ''@'' @ hostname e @ '':'' @
     str_int (pid e)"

definition visited :: "env \<Rightarrow> ('p, 'r) QueueManager \<Rightarrow> 'p world \<Rightarrow> string \<Rightarrow> int \<Rightarrow> 'p row" where
  "visited e m w q limit = scanned limit (visible_cells e m w q) 0"

definition new_row :: "string \<Rightarrow> int \<Rightarrow> 'p row \<Rightarrow> 'p row \<Rightarrow> 'p row" where
  "new_row lease_tag ts seen cells =
     concat (map (\<lambda>c. if c \<in> set seen
                        then (if survives c then [(fst c, leased lease_tag c, ts)] else [])
                        else [c]) cells)"

text \<open>The tasks that a call returned: none when it raised.\<close>

definition returned :: "error + 'p GrrMessage list \<Rightarrow> 'p GrrMessage list" where
  "returned res = (case res of Inl err \<Rightarrow> [] | Inr leased_tasks \<Rightarrow> leased_tasks)"

text \<open>The exceptions that the two \<^verbatim>\<open>except\<close> clauses of \<^verbatim>\<open>QueryAndOwn\<close> catch.\<close>

definition is_store_error :: "error \<Rightarrow> bool" where
  "is_store_error err =
     (case err of DBSubjectLockError \<Rightarrow> True | DatastoreError msg \<Rightarrow> True | _ \<Rightarrow> False)"

text \<open>The task ids stored in a row.\<close>

definition task_ids :: "'p row \<Rightarrow> int set" where
  "task_ids cells = (\<lambda>c. task_id (fst (snd c))) ` set cells"

text \<open>
  A queue with four visible tasks, the last of which is on its last delivery attempt, and
  an environment in which no call of the data store fails.
\<close>

definition example_task :: "int \<Rightarrow> int \<Rightarrow> int \<Rightarrow> string GrrMessage" where
  "example_task tid prio ttl =
     \<lparr>session_id = ''F:1'', request_id = 1, response_id = 0, name = ''Action'',
      auth_state = AUTHENTICATED, type = MESSAGE, args_rdf_name = None, payload = ''args'',
      queue = ''C.1'', task_id = tid, priority = prio, task_ttl = ttl, eta = 0,
      last_lease = []\<rparr>"

definition example_world :: "string world" where
  "example_world =
     \<lparr>db = (\<lambda>subject. if subject = ''C.1''
                        then [(''task:00000001'', example_task 1 0 5, 10),
                              (''task:00000002'', example_task 2 2 5, 20),
                              (''task:00000003'', example_task 3 1 5, 30),
                              (''task:00000004'', example_task 4 1 1, 40)]
                        else []),
      counters = (\<lambda>metric. 0)\<rparr>"

definition example_env :: env where
  "example_env =
     \<lparr>now = 100, time_time = 100, hostname = ''host'', pid = 1, max_ttl = 5,
      lock_error = None, resolve_error = None, multiset_error = None\<rparr>"

definition example_manager :: "(string, unit) QueueManager" where
  "example_manager =
     \<lparr>token = None, frozen_timestamp = None, request_queue = [], response_queue = [],
      requests_to_delete = [], client_messages_to_delete = [], new_client_messages = [],
      notifications = [], num_notification_shards = 1\<rparr>"

subsection \<open>Reference definitions for QueueNotification\<close>

text \<open>Successive calls of \<^verbatim>\<open>QueueNotification\<close> on one manager, each with its arguments.\<close>

fun QueueNotification_calls ::
  "('p, 'r) QueueManager \<Rightarrow> (GrrNotification \<times> int option) list \<Rightarrow> ('p, 'r) QueueManager" where
  "QueueNotification_calls m [] = m"
| "QueueNotification_calls m ((notification, timestamp) # cs) =
     QueueNotification_calls (QueueNotification m notification timestamp) cs"

text \<open>
  The timestamp that a call stores in the notification and uses in its key: the argument,
  or the manager's frozen timestamp when the argument is \<^verbatim>\<open>None\<close>.
\<close>

definition effective_timestamp :: "('p, 'r) QueueManager \<Rightarrow> int option \<Rightarrow> int option" where
  "effective_timestamp m timestamp =
     (case timestamp of None \<Rightarrow> frozen_timestamp m | Some t \<Rightarrow> Some t)"

text \<open>Three notifications of one session, with last_status 3, 7 and 5.\<close>

definition example_notification :: "int \<Rightarrow> GrrNotification" where
  "example_notification ls =
     \<lparr>n_session_id = ''F:1'', n_timestamp = None, n_priority = 1, in_progress = False,
      first_queued = 0, last_status = ls\<rparr>"


section \<open>State handler dispatch (flow.py, \<^verbatim>\<open>StateHandler\<close>)\<close>












subsection \<open>Reference definitions for the dispatcher\<close>







section \<open>Commit of a flow (flow.py, \<^verbatim>\<open>FlowBase.Flush\<close> and \<^verbatim>\<open>FlowBase.Close\<close>)\<close>

text \<open>
  The calls that a commit makes on the flow object, on the data store and on the mutation
  pool, in the order it makes them. \<open>Set_attr\<close> is \<^verbatim>\<open>self.Set\<close> of the named attribute;
  \<open>AFF4_Flush\<close> and \<open>AFF4_Close\<close> are the \<^verbatim>\<open>Flush\<close> and \<^verbatim>\<open>Close\<close> of the base class, which
  write the attributes that were set; \<open>Pool_exit\<close> is the end of the \<^verbatim>\<open>with mutation_pool\<close>
  block.
\<close>

datatype ('p, 'r) action =
    Check_Lease
  | Save
  | Set_attr string
  | Load
  | AFF4_Flush bool
  | AFF4_Close bool
  | Create_Runner
  | StoreRequestsAndResponses "('r \<times> int option) list" "('p GrrMessage \<times> int option) list" "'r list"
  | Pool_DeleteAttributes string "string list"
  | Pool_MultiSet string "(string \<times> 'p GrrMessage list) list" "int option"
  | Pool_exit
  | Pool_CreateNotifications string "GrrNotification list"
  | Pool_Flush




















subsection \<open>Reference definitions for the commit\<close>

text \<open>
  The step of the commit protocol that a call belongs to: the lease check (0), the
  serialisation of the flow (1), the setting (2) and writing (3, 4) of its attributes, the
  runner (5), the requests and responses (6), the task deletions (7) and new tasks (8) of
  the mutation pool and its first flush (9), the notifications (10) and their flush (11).
\<close>

fun step :: "('p, 'r) action \<Rightarrow> nat" where
  "step Check_Lease = 0"
| "step Save = 1"
| "step (Set_attr a) = 2"
| "step Load = 3"
| "step (AFF4_Flush sync) = 4"
| "step (AFF4_Close sync) = 4"
| "step Create_Runner = 5"
| "step (StoreRequestsAndResponses rq rs rd) = 6"
| "step (Pool_DeleteAttributes q cols) = 7"
| "step (Pool_MultiSet q vs ts) = 8"
| "step Pool_exit = 9"
| "step (Pool_CreateNotifications shard ns) = 10"
| "step Pool_Flush = 11"



text \<open>
  The attributes that \<^verbatim>\<open>WriteState\<close> sets on a flow open for writing, the write of the base
  class that a \<^verbatim>\<open>Flush\<close> and a \<^verbatim>\<open>Close\<close> make, and the column of a task in its queue.
\<close>

definition state_attributes :: "string list" where
  "state_attributes =
     [''aff4:flow_args'', ''aff4:flow_context'', ''aff4:flow_runner_args'',
      ''aff4:flow_state_dict'']"

definition column :: "'p GrrMessage \<Rightarrow> string" where
  "column task = TaskIdToColumn (task_id task)"




section \<open>Properties of the response collator\<close>

lemma type_cases: "type m \<noteq> ITERATOR \<Longrightarrow> type m \<noteq> STATUS \<Longrightarrow> type m = MESSAGE"
  by (cases "type m") auto

lemma filter_responses_Cons:
  "filter_responses mkS mkI (msg # msgs) r =
     (if is_dropped (auth_required r) msg
      then filter_responses mkS mkI msgs (r\<lparr>dropped_responses := dropped_responses r @ [msg]\<rparr>)
      else if type msg = ITERATOR
      then filter_responses mkS mkI msgs (r\<lparr>iterator := Some (mkI (payload msg))\<rparr>)
      else if type msg = STATUS
      then r\<lparr>status := Some (mkS (payload msg)),
             success := (returned_status (mkS (payload msg)) = OK)\<rparr>
      else filter_responses mkS mkI msgs (r\<lparr>responses := responses r @ [msg]\<rparr>))"
  by (simp add: is_dropped_def)

lemma filter_responses_auth [simp]:
  "auth_required (filter_responses mkS mkI msgs r) = auth_required r"
  by (induction msgs arbitrary: r) auto

lemma filter_responses_request [simp]:
  "request (filter_responses mkS mkI msgs r) = request r"
  by (induction msgs arbitrary: r) auto

lemma filter_responses_responses:
  "responses (filter_responses mkS mkI msgs r) =
     responses r @ filter (\<lambda>m. type m = MESSAGE)
       (takeWhile (\<lambda>m. type m \<noteq> STATUS) (filter (\<lambda>m. \<not> is_dropped (auth_required r) m) msgs))"
proof (induction msgs arbitrary: r)
  case Nil
  then show ?case by simp
next
  case (Cons m ms)
  show ?case
    by (cases "type m") (simp_all add: filter_responses_Cons Cons.IH del: filter_responses.simps(2) cong: list.case_cong)
qed

lemma filter_responses_status:
  "status (filter_responses mkS mkI msgs r) =
     (case dropWhile (\<lambda>m. type m \<noteq> STATUS) (filter (\<lambda>m. \<not> is_dropped (auth_required r) m) msgs) of
        [] \<Rightarrow> status r
      | st # _ \<Rightarrow> Some (mkS (payload st)))"
proof (induction msgs arbitrary: r)
  case Nil
  then show ?case by simp
next
  case (Cons m ms)
  show ?case
    by (cases "type m") (simp_all add: filter_responses_Cons Cons.IH del: filter_responses.simps(2) cong: list.case_cong)
qed

lemma filter_responses_success:
  "success (filter_responses mkS mkI msgs r) =
     (case dropWhile (\<lambda>m. type m \<noteq> STATUS) (filter (\<lambda>m. \<not> is_dropped (auth_required r) m) msgs) of
        [] \<Rightarrow> success r
      | st # _ \<Rightarrow> returned_status (mkS (payload st)) = OK)"
proof (induction msgs arbitrary: r)
  case Nil
  then show ?case by simp
next
  case (Cons m ms)
  show ?case
    by (cases "type m") (simp_all add: filter_responses_Cons Cons.IH del: filter_responses.simps(2) cong: list.case_cong)
qed


lemma iter_loop_firsts:
  "sorted (map response_id ms) \<Longrightarrow> list_all (\<lambda>m. type m = MESSAGE) ms \<Longrightarrow>
   (case old of None \<Rightarrow> True | Some k \<Rightarrow> list_all (\<lambda>m. k \<le> response_id m) ms) \<Longrightarrow>
   prefix (fst (iter_loop icr exp old ms))
          (first_per_response_id (filter (\<lambda>x. Some (response_id x) \<noteq> old) ms)) \<and>
   (snd (iter_loop icr exp old ms) = None \<longrightarrow>
      fst (iter_loop icr exp old ms) =
        first_per_response_id (filter (\<lambda>x. Some (response_id x) \<noteq> old) ms))"
proof (induction ms arbitrary: old)
  case Nil
  then show ?case by simp
next
  case (Cons m ms)
  have srt: "sorted (map response_id ms)" and allm: "list_all (\<lambda>m. type m = MESSAGE) ms"
    and ge: "list_all (\<lambda>x. response_id m \<le> response_id x) ms"
    using Cons.prems by (auto simp: list_all_iff)
  show ?case
  proof (cases "Some (response_id m) = old")
    case True
    then have "(case old of None \<Rightarrow> True | Some k \<Rightarrow> list_all (\<lambda>m. k \<le> response_id m) ms)"
      using ge by auto
    from Cons.IH [OF srt allm this] True show ?thesis by simp
  next
    case False
    have flt: "filter (\<lambda>x. Some (response_id x) \<noteq> old) ms = ms"
    proof (cases old)
      case None then show ?thesis by simp
    next
      case (Some k)
      then have "k \<le> response_id m" using Cons.prems by simp
      with False Some have "k < response_id m" by auto
      with ge have "\<forall>x\<in>set ms. response_id x \<noteq> k" by (auto simp: list_all_iff)
      with Some show ?thesis by (auto simp: filter_id_conv)
    qed
    have ih: "prefix (fst (iter_loop icr exp (Some (response_id m)) ms))
          (first_per_response_id (filter (\<lambda>x. response_id x \<noteq> response_id m) ms)) \<and>
      (snd (iter_loop icr exp (Some (response_id m)) ms) = None \<longrightarrow>
        fst (iter_loop icr exp (Some (response_id m)) ms) =
        first_per_response_id (filter (\<lambda>x. response_id x \<noteq> response_id m) ms))"
      using Cons.IH [of "Some (response_id m)", OF srt allm] ge by simp
    have tm: "type m = MESSAGE" using Cons.prems by simp
    obtain ys e where it: "iter_loop icr exp (Some (response_id m)) ms = (ys, e)"
      by (cases "iter_loop icr exp (Some (response_id m)) ms")
    show ?thesis using False flt ih tm it
      by (cases icr) (auto split: option.split)
  qed
qed


lemma set_first_per_response_id: "set (first_per_response_id ms) \<subseteq> set ms"
  by (induction ms rule: first_per_response_id.induct) auto

lemma length_first_per_response_id: "length (first_per_response_id ms) \<le> length ms"
proof (induction ms rule: first_per_response_id.induct)
  case 1
  then show ?case by simp
next
  case (2 m ms)
  have "length (filter (\<lambda>x. response_id x \<noteq> response_id m) ms) \<le> length ms"
    by (rule length_filter_le)
  with "2.IH" show ?case by (simp del: length_filter_le)
qed

lemma first_per_response_id_distinct:
  "distinct (map response_id ms) \<Longrightarrow> first_per_response_id ms = ms"
proof (induction ms)
  case Nil
  then show ?case by simp
next
  case (Cons m ms)
  from Cons.prems have "response_id m \<notin> response_id ` set ms" by simp
  then have "\<forall>x\<in>set ms. response_id x \<noteq> response_id m" by (metis imageI)
  then have "filter (\<lambda>x. response_id x \<noteq> response_id m) ms = ms"
    by (simp add: filter_id_conv)
  with Cons show ?case by simp
qed

lemma first_per_response_id_strict:
  "sorted (map response_id ms) \<Longrightarrow>
   sorted_wrt (<) (map response_id (first_per_response_id ms))"
proof (induction ms rule: first_per_response_id.induct)
  case 1
  then show ?case by simp
next
  case (2 m ms)
  let ?rest = "filter (\<lambda>x. response_id x \<noteq> response_id m) ms"
  have "sorted (map response_id ?rest)"
    using "2.prems" by (simp add: sorted_filter)
  then have ih: "sorted_wrt (<) (map response_id (first_per_response_id ?rest))"
    by (rule "2.IH")
  have "response_id m < response_id x" if "x \<in> set (first_per_response_id ?rest)" for x
  proof -
    from that have "x \<in> set ?rest" using set_first_per_response_id by blast
    then show ?thesis using "2.prems" by fastforce
  qed
  with ih show ?case by auto
qed

lemma sorted_before_status:
  "sorted (map response_id
     (filter P (takeWhile Q (filter R (sort_key response_id msgs)))))"
proof -
  have "sorted_wrt (\<lambda>x y. response_id x \<le> response_id y) (sort_key response_id msgs)"
    using sorted_sort_key [of response_id msgs] by (simp add: sorted_map)
  then have "sorted_wrt (\<lambda>x y. response_id x \<le> response_id y)
     (filter P (takeWhile Q (filter R (sort_key response_id msgs))))"
    by (intro sorted_wrt_filter sorted_wrt_takeWhile)
  then show ?thesis by (simp add: sorted_map)
qed

lemma iter_loop_no_client_request: "snd (iter_loop False exp old ms) = None"
proof (induction ms arbitrary: old)
  case Nil
  then show ?case by simp
next
  case (Cons m ms)
  have "snd (case iter_loop False exp (Some (response_id m)) ms of (ys, e) \<Rightarrow> (m # ys, e)) = None"
    using Cons.IH [of "Some (response_id m)"]
    by (cases "iter_loop False exp (Some (response_id m)) ms") simp
  with Cons.IH show ?case by simp
qed

lemma iter_messages_collated:
  assumes "responses r = filter (\<lambda>m. type m = MESSAGE) xs"
    and "sorted (map response_id (responses r))"
  shows "prefix (fst (iter_messages reg r)) (first_per_response_id (responses r)) \<and>
     (snd (iter_messages reg r) = None \<longrightarrow>
        fst (iter_messages reg r) = first_per_response_id (responses r))"
proof -
  have allm: "list_all (\<lambda>m. type m = MESSAGE) (responses r)"
    using assms(1) by (simp add: list_all_iff)
  have "prefix (fst (iter_loop icr exp None (responses r))) (first_per_response_id (responses r)) \<and>
     (snd (iter_loop icr exp None (responses r)) = None \<longrightarrow>
        fst (iter_loop icr exp None (responses r)) = first_per_response_id (responses r))"
    for icr exp
    using iter_loop_firsts [OF assms(2) allm, of None icr exp] by simp
  then show ?thesis
    by (simp add: iter_messages_def split: option.split)
qed

lemma kept_all_authenticated:
  "list_all (\<lambda>m. auth_state m = AUTHENTICATED) msgs \<Longrightarrow>
   filter (\<lambda>m. \<not> is_dropped a m) (sort_key response_id msgs) = sort_key response_id msgs"
  by (simp add: filter_id_conv is_dropped_def list_all_iff)

lemma Responses_init_nonempty:
  "msgs \<noteq> [] \<Longrightarrow>
   Responses_init mkS mkI req (Some msgs) a =
     (let r = filter_responses mkS mkI (sort_key response_id msgs)
                \<lparr>status = None, success = True, request = req, auth_required = a,
                 responses = [], dropped_responses = [], iterator = None\<rparr>
      in if status r = None then Inl (FlowError ''No valid Status message.'') else Inr r)"
  by (simp add: Responses_init_def)

lemma dropWhile_kept_sorted_Nil:
  "\<not> list_ex (\<lambda>m. type m = STATUS) (filter (\<lambda>m. \<not> is_dropped a m) msgs) \<Longrightarrow>
   dropWhile (\<lambda>m. type m \<noteq> STATUS)
     (filter (\<lambda>m. \<not> is_dropped a m) (sort_key response_id msgs)) = []"
  by (auto simp: list_ex_iff)

lemma example_sorted: "sort_key response_id example_responses = example_responses"
  by (simp add: example_responses_def example_message_def)

lemma example_collated:
  "map payload (collated example_responses) = [''a'', ''b'', ''c'']"
  by (simp add: collated_def example_sorted) (simp add: example_responses_def example_message_def)

lemma example_init:
  "Responses_init example_status (\<lambda>p. p) (Some example_request) (Some example_responses) True =
     Inr \<lparr>status = Some \<lparr>returned_status = OK, error_message = ''ok''\<rparr>, success = True,
          request = Some example_request, auth_required = True,
          responses = [example_message 1 MESSAGE ''a'', example_message 2 MESSAGE ''b'',
                       example_message 2 MESSAGE ''b2'', example_message 3 MESSAGE ''c''],
          dropped_responses = [], iterator = None\<rparr>"
  by (simp add: Responses_init_def example_sorted)
     (simp add: example_responses_def example_message_def example_status_def)

text \<open>
  Claim C1. For a non-empty list of authenticated responses that contains a status record,
  the collator is constructed; its status is that of the first status record in
  response-id order and its success flag says whether that status is \<open>OK\<close>. Iterating
  yields the payloads of the message records before that status record, in strictly
  ascending response-id order, one per response id: what is yielded is always an initial
  part of that sequence, and all of it unless the validation of a client request's
  response types raises; for a request that is not a client request it never raises.
\<close>

theorem responses_ordered_dedup:
  assumes ne: "msgs \<noteq> []"
    and auth: "list_all (\<lambda>m. auth_state m = AUTHENTICATED) msgs"
    and st: "list_ex (\<lambda>m. type m = STATUS) msgs"
  shows "\<exists>r st rest.
     Responses_init mkS mkI req (Some msgs) a = Inr r \<and>
     dropWhile (\<lambda>m. type m \<noteq> STATUS) (sort_key response_id msgs) = st # rest \<and>
     status r = Some (mkS (payload st)) \<and>
     success r = (returned_status (mkS (payload st)) = OK) \<and>
     prefix (fst (Responses_iter reg r)) (map payload (collated msgs)) \<and>
     (snd (Responses_iter reg r) = None \<longrightarrow>
        fst (Responses_iter reg r) = map payload (collated msgs)) \<and>
     ((\<exists>rq. req = Some rq \<and> client_request rq = None) \<longrightarrow>
        snd (Responses_iter reg r) = None) \<and>
     sorted_wrt (<) (map response_id (collated msgs))"
proof -
  let ?r0 = "\<lparr>status = None, success = True, request = req, auth_required = a,
               responses = [], dropped_responses = [], iterator = None\<rparr>"
  let ?sorted = "sort_key response_id msgs"
  let ?r = "filter_responses mkS mkI ?sorted ?r0"
  have kept: "filter (\<lambda>m. \<not> is_dropped a m) ?sorted = ?sorted"
    using auth by (rule kept_all_authenticated)
  from st have "\<exists>m\<in>set ?sorted. \<not> type m \<noteq> STATUS"
    by (simp add: list_ex_iff)
  then have "dropWhile (\<lambda>m. type m \<noteq> STATUS) ?sorted \<noteq> []"
    by simp
  then obtain s rest where dw: "dropWhile (\<lambda>m. type m \<noteq> STATUS) ?sorted = s # rest"
    by (cases "dropWhile (\<lambda>m. type m \<noteq> STATUS) ?sorted") auto
  have status: "status ?r = Some (mkS (payload s))"
    by (simp add: filter_responses_status kept dw)
  have success: "success ?r = (returned_status (mkS (payload s)) = OK)"
    by (simp add: filter_responses_success kept dw)
  have init: "Responses_init mkS mkI req (Some msgs) a = Inr ?r"
    using ne status by (simp add: Responses_init_nonempty)
  have resp: "responses ?r = filter (\<lambda>m. type m = MESSAGE)
      (takeWhile (\<lambda>m. type m \<noteq> STATUS) ?sorted)"
    by (simp add: filter_responses_responses kept)
  have fp: "first_per_response_id (responses ?r) = collated msgs"
    by (simp add: resp collated_def)
  have srt: "sorted (map response_id (responses ?r))"
    using sorted_before_status [of "\<lambda>m. type m = MESSAGE" "\<lambda>m. type m \<noteq> STATUS" "\<lambda>m. True" msgs]
    by (simp add: resp)
  have it: "prefix (fst (iter_messages reg ?r)) (collated msgs) \<and>
     (snd (iter_messages reg ?r) = None \<longrightarrow> fst (iter_messages reg ?r) = collated msgs)"
    using iter_messages_collated [OF resp srt, of reg] by (simp add: fp)
  have p1: "prefix (fst (Responses_iter reg ?r)) (map payload (collated msgs))"
    using it by (simp add: Responses_iter_def map_mono_prefix)
  have p2: "snd (Responses_iter reg ?r) = None \<longrightarrow>
        fst (Responses_iter reg ?r) = map payload (collated msgs)"
    using it by (simp add: Responses_iter_def)
  have p3: "(\<exists>rq. req = Some rq \<and> client_request rq = None) \<longrightarrow>
        snd (Responses_iter reg ?r) = None"
    by (auto simp: Responses_iter_def iter_messages_def iter_loop_no_client_request)
  have p4: "sorted_wrt (<) (map response_id (collated msgs))"
    unfolding fp [symmetric] using srt by (rule first_per_response_id_strict)
  show ?thesis
    by (intro exI [of _ ?r] exI [of _ s] exI [of _ rest] conjI
          init dw status success p1 p2 p3 p4)
qed

theorem responses_ordered_dedup_witness:
  "\<exists>r. Responses_init example_status (\<lambda>p. p) (Some example_request) (Some example_responses) True
          = Inr r \<and>
       success r \<and> fst (Responses_iter Map.empty r) = [''a'', ''b'', ''c'']"
proof -
  have ne: "example_responses \<noteq> []" by (simp add: example_responses_def)
  have auth: "list_all (\<lambda>m. auth_state m = AUTHENTICATED) example_responses"
    by (simp add: example_responses_def example_message_def)
  have st: "list_ex (\<lambda>m. type m = STATUS) example_responses"
    by (simp add: example_responses_def example_message_def)
  have dw: "dropWhile (\<lambda>m. type m \<noteq> STATUS) (sort_key response_id example_responses)
      = [example_message 5 STATUS ''ok'']"
    by (simp add: example_sorted) (simp add: example_responses_def example_message_def)
  from responses_ordered_dedup [OF ne auth st, of example_status "\<lambda>p. p" "Some example_request" True Map.empty]
  show ?thesis
    by (auto simp: dw example_collated example_request_def example_status_def example_message_def)
qed

text \<open>
  Claim C3. For a non-empty list of responses in which no record that survives the
  authentication check is a status record, constructing the collator raises
  \<^verbatim>\<open>FlowError("No valid Status message.")\<close>; no collator is returned.
\<close>

theorem no_status_raises:
  assumes ne: "msgs \<noteq> []"
    and nost: "\<not> list_ex (\<lambda>m. type m = STATUS) (filter (\<lambda>m. \<not> is_dropped a m) msgs)"
  shows "Responses_init mkS mkI req (Some msgs) a = Inl (FlowError ''No valid Status message.'')"
proof -
  let ?r0 = "\<lparr>status = None, success = True, request = req, auth_required = a,
               responses = [], dropped_responses = [], iterator = None\<rparr>"
  have "status (filter_responses mkS mkI (sort_key response_id msgs) ?r0) = None"
    by (simp add: filter_responses_status dropWhile_kept_sorted_Nil [OF nost])
  with ne show ?thesis
    by (simp add: Responses_init_nonempty)
qed

theorem no_status_raises_witness:
  "Responses_init example_status (\<lambda>p. p) (Some example_request)
     (Some [example_message 1 MESSAGE ''a'',
            (example_message 2 STATUS ''ok'')\<lparr>auth_state := UNAUTHENTICATED\<rparr>]) True
   = Inl (FlowError ''No valid Status message.'')"
  by (rule no_status_raises) (simp_all add: is_dropped_def example_message_def)

text \<open>
  Claim C9 as stated fails: for the responses with ids 1, 2, 2, 3 and a status record at
  id 5 the collator's length is 4 while its iteration yields 3 payloads.
\<close>

theorem len_differs_counterexample:
  "\<not> isl (Responses_init example_status (\<lambda>p. p) (Some example_request)
            (Some example_responses) True) \<and>
   Responses_len (projr (Responses_init example_status (\<lambda>p. p) (Some example_request)
            (Some example_responses) True)) = 4 \<and>
   length (fst (Responses_iter Map.empty
      (projr (Responses_init example_status (\<lambda>p. p) (Some example_request)
            (Some example_responses) True)))) = 3"
  unfolding example_init
  by (simp add: Responses_len_def Responses_iter_def iter_messages_def
        example_request_def example_message_def)

text \<open>
  Claim C9, amended. The length of a collator is the number of message records it retained
  (kept by the authentication check, before the first status record), counted before
  retransmissions are filtered. The number of payloads that its iteration yields never
  exceeds the length, and equals it when the retained records have pairwise distinct
  response ids and the iteration is not ended by an exception.
\<close>

theorem len_counts_retained:
  assumes init: "Responses_init mkS mkI req rs a = Inr r"
  shows "Responses_len r =
      length (filter (\<lambda>m. type m = MESSAGE)
        (takeWhile (\<lambda>m. type m \<noteq> STATUS)
          (filter (\<lambda>m. \<not> is_dropped a m)
            (sort_key response_id (case rs of None \<Rightarrow> [] | Some msgs \<Rightarrow> msgs))))) \<and>
    length (fst (Responses_iter reg r)) \<le> Responses_len r \<and>
    (snd (Responses_iter reg r) = None \<and> distinct (map response_id (responses r)) \<longrightarrow>
       length (fst (Responses_iter reg r)) = Responses_len r)"
proof -
  let ?msgs = "case rs of None \<Rightarrow> [] | Some msgs \<Rightarrow> msgs"
  let ?kept = "filter (\<lambda>m. \<not> is_dropped a m) (sort_key response_id ?msgs)"
  have resp: "responses r = filter (\<lambda>m. type m = MESSAGE)
      (takeWhile (\<lambda>m. type m \<noteq> STATUS) ?kept)"
  proof (cases "?msgs = []")
    case True
    then have "rs = None \<or> rs = Some []" by (cases rs) auto
    with init have "responses r = []" by (auto simp: Responses_init_def)
    with True show ?thesis by simp
  next
    case False
    then obtain msgs where rs: "rs = Some msgs" "msgs \<noteq> []" by (cases rs) auto
    with init show ?thesis
      by (auto simp: Responses_init_nonempty Let_def filter_responses_responses
            split: if_splits)
  qed
  have srt: "sorted (map response_id (responses r))"
    unfolding resp by (rule sorted_before_status)
  have it: "prefix (fst (iter_messages reg r)) (first_per_response_id (responses r)) \<and>
     (snd (iter_messages reg r) = None \<longrightarrow>
        fst (iter_messages reg r) = first_per_response_id (responses r))"
    using resp srt by (rule iter_messages_collated)
  have "length (fst (iter_messages reg r)) \<le> length (first_per_response_id (responses r))"
    using it by (simp add: prefix_length_le)
  then have le: "length (fst (Responses_iter reg r)) \<le> Responses_len r"
    using length_first_per_response_id [of "responses r"]
    by (simp add: Responses_iter_def Responses_len_def)
  have eq: "snd (Responses_iter reg r) = None \<and> distinct (map response_id (responses r)) \<longrightarrow>
       length (fst (Responses_iter reg r)) = Responses_len r"
    using it by (simp add: Responses_iter_def Responses_len_def first_per_response_id_distinct)
  show ?thesis using resp le eq by (simp add: Responses_len_def)
qed

theorem len_counts_retained_witness:
  "Responses_len (projr (Responses_init example_status (\<lambda>p. p) (Some example_request)
       (Some [example_message 3 MESSAGE ''c'', example_message 5 STATUS ''ok'',
              example_message 1 MESSAGE ''a'']) True)) = 2 \<and>
   length (fst (Responses_iter Map.empty (projr (Responses_init example_status (\<lambda>p. p)
       (Some example_request)
       (Some [example_message 3 MESSAGE ''c'', example_message 5 STATUS ''ok'',
              example_message 1 MESSAGE ''a'']) True)))) = 2"
proof -
  have init: "Responses_init example_status (\<lambda>p. p) (Some example_request)
       (Some [example_message 3 MESSAGE ''c'', example_message 5 STATUS ''ok'',
              example_message 1 MESSAGE ''a'']) True =
     Inr \<lparr>status = Some \<lparr>returned_status = OK, error_message = ''ok''\<rparr>, success = True,
          request = Some example_request, auth_required = True,
          responses = [example_message 1 MESSAGE ''a'', example_message 3 MESSAGE ''c''],
          dropped_responses = [], iterator = None\<rparr>"
    by (simp add: Responses_init_def example_message_def example_status_def)
  from len_counts_retained [OF init, of Map.empty]
  show ?thesis
    unfolding init
    by (simp add: Responses_len_def Responses_iter_def iter_messages_def
        example_request_def example_message_def)
qed

text \<open>
  Claim C10. Constructing a collator from \<^verbatim>\<open>responses=None\<close> or from the empty list never
  raises: the collator has \<^verbatim>\<open>success=True\<close>, \<^verbatim>\<open>status=None\<close>, length 0, and its iteration
  yields nothing. Construction raises only for a non-empty list.
\<close>

theorem empty_responses_never_raise:
  "(rs = None \<or> rs = Some [] \<longrightarrow>
      (\<exists>r. Responses_init mkS mkI req rs a = Inr r \<and> success r \<and> status r = None \<and>
           Responses_len r = 0 \<and> fst (Responses_iter reg r) = [])) \<and>
   (isl (Responses_init mkS mkI req rs a) \<longrightarrow> (\<exists>msgs. rs = Some msgs \<and> msgs \<noteq> []))"
proof -
  let ?r0 = "\<lparr>status = None, success = True, request = req, auth_required = a,
               responses = [], dropped_responses = [], iterator = None\<rparr>"
  have it: "fst (Responses_iter reg ?r0) = []"
    by (simp add: Responses_iter_def iter_messages_def split: option.split)
  have a: "rs = None \<or> rs = Some [] \<longrightarrow> Responses_init mkS mkI req rs a = Inr ?r0"
    by (auto simp: Responses_init_def)
  have b: "isl (Responses_init mkS mkI req rs a) \<longrightarrow> (\<exists>msgs. rs = Some msgs \<and> msgs \<noteq> [])"
    by (cases rs) (auto simp: Responses_init_def)
  from a it b show ?thesis by (auto simp: Responses_len_def)
qed

theorem empty_responses_never_raise_witness:
  "(\<exists>r. Responses_init example_status (\<lambda>p. p) (Some example_request) (Some []) True = Inr r \<and>
        success r \<and> status r = None \<and> fst (Responses_iter Map.empty r) = ([] :: string list)) \<and>
   (\<exists>r. Responses_init example_status (\<lambda>p. p) (None :: string RequestState option) None True = Inr r \<and>
        success r \<and> status r = None \<and> fst (Responses_iter Map.empty r) = []) \<and>
   isl (Responses_init example_status (\<lambda>p. p) (Some example_request)
          (Some [example_message 1 MESSAGE ''a'']) True)"
proof -
  have raises: "isl (Responses_init example_status (\<lambda>p. p) (Some example_request)
          (Some [example_message 1 MESSAGE ''a'']) True)"
    by (simp add: Responses_init_def example_message_def)
  from empty_responses_never_raise [of "Some []" example_status "\<lambda>p. p" "Some example_request" True Map.empty]
    empty_responses_never_raise [of None example_status "\<lambda>p. p" None True Map.empty]
    empty_responses_never_raise [of "Some [example_message 1 MESSAGE ''a'']" example_status "\<lambda>p. p"
      "Some example_request" True Map.empty]
    raises
  show ?thesis by auto
qed

section \<open>Properties of the task queue manager\<close>

lemma bit_length_le: "a < 2 ^ k \<Longrightarrow> bit_length a \<le> k"
proof (induction k arbitrary: a)
  case 0
  then show ?case by (simp add: bit_length.simps)
next
  case (Suc k)
  show ?case
  proof (cases "a = 0")
    case True
    then show ?thesis by (simp add: bit_length.simps)
  next
    case False
    from Suc.prems have "a div 2 < 2 ^ k" by simp
    from Suc.IH [OF this] False show ?thesis
      by (subst bit_length.simps) simp
  qed
qed

lemma nearest_double_exact:
  assumes "\<bar>n\<bar> < 2 ^ 53"
  shows "nearest_double n = Some n"
proof -
  let ?a = "nat \<bar>n\<bar>"
  from assms have "?a < 2 ^ 53" by (simp add: nat_less_iff)
  then have k: "bit_length ?a - 53 = 0" and small: "?a < 2 ^ 1024"
    using bit_length_le [of ?a 53]
      order_less_le_trans [of ?a "2 ^ 53" "2 ^ 1024"]
    by simp_all
  have "sgn n * \<bar>n\<bar> = n" by (simp add: mult_sgn_abs)
  with small show ?thesis
    by (simp add: nearest_double_def k Let_def not_le)
qed

lemma long_times_1e6_exact:
  assumes "\<bar>lease_seconds\<bar> * 1000000 < 2 ^ 53"
  shows "long_times_1e6 lease_seconds = Inr (lease_seconds * 1000000)"
proof -
  have "\<bar>lease_seconds\<bar> \<le> \<bar>lease_seconds\<bar> * 1000000" by simp
  from this assms have a: "\<bar>lease_seconds\<bar> < 2 ^ 53" by (rule order_le_less_trans)
  from assms have b: "\<bar>lease_seconds * 1000000\<bar> < 2 ^ 53" by (simp add: abs_mult)
  show ?thesis
    by (simp add: long_times_1e6_def nearest_double_exact [OF a] nearest_double_exact [OF b])
qed

lemma example_lease: "long_times_1e6 10 = Inr 10000000"
  using long_times_1e6_exact [of 10] by simp

lemma loop_tasks:
  "tasks (QueryAndOwn_loop tag mttl limit cells s) =
     tasks s @ map (leased tag) (filter survives (scanned limit cells (length (tasks s))))"
proof (induction cells arbitrary: s)
  case Nil
  then show ?case by simp
next
  case (Cons c cells)
  obtain p t ts where c: "c = (p, t, ts)" by (cases c)
  show ?case
    by (simp add: c Cons.IH Let_def survives_def leased_def)
qed

lemma loop_delete_attrs:
  "delete_attrs (QueryAndOwn_loop tag mttl limit cells s) =
     delete_attrs s \<union> fst ` set (filter (\<lambda>c. \<not> survives c) (scanned limit cells (length (tasks s))))"
proof (induction cells arbitrary: s)
  case Nil
  then show ?case by simp
next
  case (Cons c cells)
  obtain p t ts where c: "c = (p, t, ts)" by (cases c)
  show ?case
    by (simp add: c Cons.IH Let_def survives_def leased_def)
qed

lemma loop_db:
  "db (scan_world (QueryAndOwn_loop tag mttl limit cells s)) = db (scan_world s)"
proof (induction cells arbitrary: s)
  case Nil
  then show ?case by simp
next
  case (Cons c cells)
  obtain p t ts where c: "c = (p, t, ts)" by (cases c)
  show ?case
    by (simp add: c Cons.IH Let_def IncrementCounter_def)
qed

lemma loop_expired:
  "counters (scan_world (QueryAndOwn_loop tag mttl limit cells s)) ''grr_task_ttl_expired_count'' =
     counters (scan_world s) ''grr_task_ttl_expired_count'' +
     length (filter (\<lambda>c. \<not> survives c) (scanned limit cells (length (tasks s))))"
proof (induction cells arbitrary: s)
  case Nil
  then show ?case by simp
next
  case (Cons c cells)
  obtain p t ts where c: "c = (p, t, ts)" by (cases c)
  show ?case
    by (simp add: c Cons.IH Let_def IncrementCounter_def survives_def)
qed


lemma setdefault_append_new:
  "k \<notin> fst ` set d \<Longrightarrow> setdefault_append k v d = d @ [(k, [v])]"
  by (simp add: setdefault_append_def map_of_eq_None_iff [THEN iffD2])

lemma scanned_subset: "set (scanned limit cells n) \<subseteq> set cells"
  by (induction cells arbitrary: n) auto

lemma scanned_prefix: "prefix (scanned limit cells n) cells"
  by (induction cells arbitrary: n) auto

lemma loop_dict:
  "distinct (map fst cells) \<Longrightarrow>
   fst ` set cells \<inter> fst ` set (serialized_tasks_dict s) = {} \<Longrightarrow>
   serialized_tasks_dict (QueryAndOwn_loop tag mttl limit cells s) =
     serialized_tasks_dict s @
     map (\<lambda>c. (fst c, [leased tag c])) (filter survives (scanned limit cells (length (tasks s))))"
proof (induction cells arbitrary: s)
  case Nil
  then show ?case by simp
next
  case (Cons c cells)
  obtain p t ts where c: "c = (p, t, ts)" by (cases c)
  have d: "distinct (map fst cells)" and pn: "p \<notin> fst ` set cells"
    and pd: "p \<notin> fst ` set (serialized_tasks_dict s)"
    and disj: "fst ` set cells \<inter> fst ` set (serialized_tasks_dict s) = {}"
    using Cons.prems by (auto simp: c)
  show ?case
  proof (cases "survives c")
    case False
    then show ?thesis
      using Cons.IH [OF d, of "s\<lparr>delete_attrs := insert p (delete_attrs s),
          scan_world := IncrementCounter ''grr_task_ttl_expired_count'' (scan_world s)\<rparr>"] disj
      by (simp add: c survives_def)
  next
    case True
    let ?t1 = "t\<lparr>eta := ts, last_lease := tag, task_ttl := task_ttl t - 1\<rparr>"
    let ?s1 = "if task_ttl t - 1 \<noteq> mttl - 1
               then s\<lparr>scan_world := IncrementCounter ''grr_task_retransmission_count'' (scan_world s)\<rparr>
               else s"
    let ?s2 = "?s1\<lparr>serialized_tasks_dict := setdefault_append p ?t1 (serialized_tasks_dict ?s1),
                     tasks := tasks ?s1 @ [?t1]\<rparr>"
    have dict2: "serialized_tasks_dict ?s2 = serialized_tasks_dict s @ [(p, [?t1])]"
      using pd by (simp add: setdefault_append_new)
    have len2: "length (tasks ?s2) = Suc (length (tasks s))" by simp
    have keys2: "fst ` set (serialized_tasks_dict ?s2) =
        insert p (fst ` set (serialized_tasks_dict s))"
      unfolding dict2 by simp
    have disj2: "fst ` set cells \<inter> fst ` set (serialized_tasks_dict ?s2) = {}"
      unfolding keys2 using disj pn by auto
    have step: "QueryAndOwn_loop tag mttl limit (c # cells) s =
        (if limit \<le> int (Suc (length (tasks s))) then ?s2
         else QueryAndOwn_loop tag mttl limit cells ?s2)"
      using True by (simp add: c survives_def Let_def)
    show ?thesis
    proof (cases "limit \<le> int (Suc (length (tasks s)))")
      case True
      with \<open>survives c\<close> show ?thesis
        unfolding step by (simp add: setdefault_append_new [OF pd] c leased_def)
    next
      case False
      with \<open>survives c\<close> show ?thesis
        unfolding step using Cons.IH [OF d disj2]
        by (simp add: setdefault_append_new [OF pd] c leased_def)
    qed
  qed
qed

lemma map_of_keyed_Some:
  "distinct (map fst xs) \<Longrightarrow> c \<in> set xs \<Longrightarrow>
   map_of (map (\<lambda>c. (fst c, g c)) xs) (fst c) = Some (g c)"
  by (induction xs) (auto simp: rev_image_eqI)

lemma map_of_keyed_None:
  "fst c \<notin> fst ` set xs \<Longrightarrow> map_of (map (\<lambda>c. (fst c, g c)) xs) (fst c) = None"
  by (induction xs) auto

lemma concat_map_filter_if:
  "list_all (\<lambda>x. (if P x then g x else []) = h x) xs \<Longrightarrow>
   concat (map g (filter P xs)) = concat (map h xs)"
  by (induction xs) (auto split: if_splits)


lemma same_key_same_cell:
  "distinct (map fst xs) \<Longrightarrow> x \<in> set xs \<Longrightarrow> y \<in> set xs \<Longrightarrow> fst x = fst y \<Longrightarrow> x = y"
  by (auto simp: distinct_map dest: inj_onD)

lemma MultiSet_new_row:
  assumes ok: "multiset_error e = None"
    and dr: "distinct (map fst (db w q))"
    and sub: "set sc \<subseteq> set (db w q)"
    and ds: "distinct (map fst sc)"
  shows "MultiSet e w q (map (\<lambda>c. (fst c, [leased tag c])) (filter survives sc)) T
           (fst ` set (filter (\<lambda>c. \<not> survives c) sc))
         = Inr (w\<lparr>db := (db w)(q := new_row tag T sc (db w q))\<rparr>)"
proof -
  let ?row = "db w q"
  let ?vals = "map (\<lambda>c. (fst c, [leased tag c])) (filter survives sc)"
  let ?del = "fst ` set (filter (\<lambda>c. \<not> survives c) sc)"
  let ?kept = "filter (\<lambda>(predicate, value, t). predicate \<notin> ?del) ?row"
  let ?rep = "\<lambda>(predicate, value, t).
       case map_of ?vals predicate of
         None \<Rightarrow> [(predicate, value, t)]
       | Some vs \<Rightarrow> map (\<lambda>v. (predicate, v, T)) vs"
  have k1: "fst c \<in> ?del \<longleftrightarrow> c \<in> set sc \<and> \<not> survives c" if "c \<in> set ?row" for c
  proof
    assume "fst c \<in> ?del"
    then obtain c' where c': "c' \<in> set sc" "\<not> survives c'" "fst c' = fst c" by auto
    with sub have "c' \<in> set ?row" by auto
    with dr that c'(3) have "c' = c" by (metis same_key_same_cell)
    with c' show "c \<in> set sc \<and> \<not> survives c" by simp
  next
    assume "c \<in> set sc \<and> \<not> survives c"
    then show "fst c \<in> ?del" by auto
  qed
  have dsv: "distinct (map fst (filter survives sc))"
    using ds by (simp add: distinct_map_filter)
  have k2: "map_of ?vals (fst c) =
      (if c \<in> set sc \<and> survives c then Some [leased tag c] else None)"
    if "c \<in> set ?row" for c
  proof (cases "c \<in> set sc \<and> survives c")
    case True
    then have "c \<in> set (filter survives sc)" by simp
    from map_of_keyed_Some [OF dsv this, of "\<lambda>c. [leased tag c]"] True show ?thesis by simp
  next
    case False
    have "fst c \<notin> fst ` set (filter survives sc)"
    proof
      assume "fst c \<in> fst ` set (filter survives sc)"
      then obtain c' where c': "c' \<in> set sc" "survives c'" "fst c' = fst c" by auto
      with sub have "c' \<in> set ?row" by auto
      with dr that c'(3) have "c' = c" by (metis same_key_same_cell)
      with c' False show False by simp
    qed
    from map_of_keyed_None [OF this, of "\<lambda>c. [leased tag c]"] False show ?thesis by simp
  qed
  have replaced: "concat (map ?rep ?kept) = new_row tag T sc ?row"
    unfolding new_row_def
  proof (rule concat_map_filter_if)
    show "list_all (\<lambda>x. (if (case x of (predicate, value, t) \<Rightarrow> predicate \<notin> ?del)
              then ?rep x else []) =
            (if x \<in> set sc
             then if survives x then [(fst x, leased tag x, T)] else []
             else [x])) ?row"
      unfolding list_all_iff
    proof
      fix x assume x: "x \<in> set ?row"
      obtain p v t where xe: "x = (p, v, t)" by (cases x)
      from k1 [OF x] k2 [OF x] show "(if (case x of (predicate, value, t) \<Rightarrow> predicate \<notin> ?del)
              then ?rep x else []) =
            (if x \<in> set sc
             then if survives x then [(fst x, leased tag x, T)] else []
             else [x])"
        by (auto simp: xe)
    qed
  qed
  have added: "concat (map (\<lambda>(predicate, vs).
                 if predicate \<in> fst ` set ?kept then []
                 else map (\<lambda>v. (predicate, v, T)) vs) ?vals) = []"
  proof -
    have "fst c \<in> fst ` set ?kept" if "c \<in> set sc" "survives c" for c
    proof -
      from that sub have cr: "c \<in> set ?row" by auto
      from k1 [OF cr] that have nd: "fst c \<notin> ?del" by simp
      from cr nd have "c \<in> set ?kept" by (simp add: case_prod_beta)
      then show ?thesis by (rule imageI)
    qed
    then show ?thesis by auto
  qed
  show ?thesis
    unfolding MultiSet_def Let_def ok replaced added by simp
qed


lemma new_row_Nil: "new_row tag T [] cells = cells"
  by (induction cells) (auto simp: new_row_def)

lemma visited_subset: "set (visited e m w q limit) \<subseteq> set (db w q)"
  using scanned_subset [of limit "visible_cells e m w q" 0]
  by (auto simp: visited_def visible_cells_def)

lemma distinct_visible:
  "distinct (map fst (db w q)) \<Longrightarrow> distinct (map fst (visible_cells e m w q))"
  by (simp add: visible_cells_def distinct_map_filter)

lemma distinct_visited:
  assumes "distinct (map fst (db w q))"
  shows "distinct (map fst (visited e m w q limit))"
proof -
  have "prefix (map fst (visited e m w q limit)) (map fst (visible_cells e m w q))"
    unfolding visited_def by (rule map_mono_prefix) (rule scanned_prefix)
  then obtain zs where "map fst (visible_cells e m w q) = map fst (visited e m w q limit) @ zs"
    by (auto simp: prefix_def)
  with distinct_visible [OF assms, of e m] show ?thesis
    by (metis distinct_append)
qed

lemma QueryAndOwn_inner_ok:
  assumes r: "resolve_error e = None" and ms: "multiset_error e = None"
    and dr: "distinct (map fst (db w q))"
    and user: "user = (case token m of Some username \<Rightarrow> username | None \<Rightarrow> [])"
    and lease: "long_times_1e6 lease_seconds = Inr lease"
  shows "fst (QueryAndOwn_inner e m w q lease_seconds limit user) =
           Inr (map (leased (lease_tag_of e m)) (filter survives (visited e m w q limit)))"
    and "db (snd (QueryAndOwn_inner e m w q lease_seconds limit user)) =
           (db w)(q := new_row (lease_tag_of e m) (time_time e + lease)
                         (visited e m w q limit) (db w q))"
    and "counters (snd (QueryAndOwn_inner e m w q lease_seconds limit user))
           ''grr_task_ttl_expired_count'' =
         counters w ''grr_task_ttl_expired_count'' +
         length (filter (\<lambda>c. \<not> survives c) (visited e m w q limit))"
proof -
  let ?tag = "lease_tag_of e m"
  let ?cells = "visible_cells e m w q"
  let ?vis = "visited e m w q limit"
  let ?init = "\<lparr>tasks = [], delete_attrs = {}, serialized_tasks_dict = [], scan_world = w\<rparr>"
  let ?s = "QueryAndOwn_loop ?tag (max_ttl e) limit ?cells ?init"
  let ?T = "time_time e + lease"
  have res: "ResolvePrefix e w q TASK_PREDICATE_PREFIX
      (0, frozen_or_now e m) = Inr ?cells"
    using r by (simp add: ResolvePrefix_def visible_cells_def)
  have tg: "user @ ''@'' @ hostname e @ '':'' @ str_int (pid e) = ?tag"
    by (simp add: user lease_tag_of_def)
  have tasks: "tasks ?s = map (leased ?tag) (filter survives ?vis)"
    by (simp add: loop_tasks visited_def)
  have del: "delete_attrs ?s = fst ` set (filter (\<lambda>c. \<not> survives c) ?vis)"
    by (simp add: loop_delete_attrs visited_def)
  have dict: "serialized_tasks_dict ?s =
      map (\<lambda>c. (fst c, [leased ?tag c])) (filter survives ?vis)"
    using loop_dict [where s = ?init and tag = ?tag and mttl = "max_ttl e" and limit = limit,
        OF distinct_visible [OF dr, of e m]]
    by (simp add: visited_def)
  have dbs: "db (scan_world ?s) = db w" by (simp add: loop_db)
  have cnt: "counters (scan_world ?s) ''grr_task_ttl_expired_count'' =
      counters w ''grr_task_ttl_expired_count'' + length (filter (\<lambda>c. \<not> survives c) ?vis)"
    using loop_expired [of ?tag "max_ttl e" limit ?cells ?init] by (simp add: visited_def)
  have mset: "MultiSet e (scan_world ?s) q (serialized_tasks_dict ?s) ?T (delete_attrs ?s) =
      Inr ((scan_world ?s)\<lparr>db := (db w)(q := new_row ?tag ?T ?vis (db w q))\<rparr>)"
    unfolding dict del
    using MultiSet_new_row [of e "scan_world ?s" q ?vis ?tag ?T]
      ms dr visited_subset [of e m w q limit] distinct_visited [OF dr, of e m limit]
    by (simp add: dbs)
  have unfold: "QueryAndOwn_inner e m w q lease_seconds limit user =
      (if delete_attrs ?s \<noteq> {} \<or> serialized_tasks_dict ?s \<noteq> []
       then (Inr (tasks ?s), (scan_world ?s)\<lparr>db := (db w)(q := new_row ?tag ?T ?vis (db w q))\<rparr>)
       else (Inr (tasks ?s), scan_world ?s))"
  proof -
    have "QueryAndOwn_inner e m w q lease_seconds limit user =
      (if delete_attrs ?s \<noteq> {} \<or> serialized_tasks_dict ?s \<noteq> []
       then (case MultiSet e (scan_world ?s) q (serialized_tasks_dict ?s) ?T (delete_attrs ?s) of
               Inl err \<Rightarrow> (Inl err, scan_world ?s)
             | Inr w' \<Rightarrow> (Inr (tasks ?s), w'))
       else (Inr (tasks ?s), scan_world ?s))"
      unfolding QueryAndOwn_inner_def Let_def lease res tg by simp
    also have "\<dots> = (if delete_attrs ?s \<noteq> {} \<or> serialized_tasks_dict ?s \<noteq> []
       then (Inr (tasks ?s), (scan_world ?s)\<lparr>db := (db w)(q := new_row ?tag ?T ?vis (db w q))\<rparr>)
       else (Inr (tasks ?s), scan_world ?s))"
      unfolding mset by simp
    finally show ?thesis .
  qed
  have empty: "?vis = []" if "\<not> (delete_attrs ?s \<noteq> {} \<or> serialized_tasks_dict ?s \<noteq> [])"
  proof -
    from that have d0: "delete_attrs ?s = {}" and s0: "serialized_tasks_dict ?s = []"
      by auto
    from d0 have a: "filter (\<lambda>c. \<not> survives c) ?vis = []"
      unfolding del by (auto simp: filter_empty_conv)
    from s0 have b: "filter survives ?vis = []"
      unfolding dict by simp
    show ?thesis
    proof (cases ?vis)
      case Nil then show ?thesis .
    next
      case (Cons c cs)
      with a b show ?thesis by (cases "survives c") auto
    qed
  qed
  show "fst (QueryAndOwn_inner e m w q lease_seconds limit user) =
           Inr (map (leased ?tag) (filter survives ?vis))"
    unfolding unfold by (simp add: tasks)
  show "db (snd (QueryAndOwn_inner e m w q lease_seconds limit user)) =
           (db w)(q := new_row ?tag ?T ?vis (db w q))"
  proof (cases "delete_attrs ?s \<noteq> {} \<or> serialized_tasks_dict ?s \<noteq> []")
    case True
    then show ?thesis unfolding unfold by simp
  next
    case False
    from empty [OF False] have "new_row ?tag ?T ?vis (db w q) = db w q"
      by (simp add: new_row_Nil)
    with False show ?thesis unfolding unfold by (simp add: dbs)
  qed
  show "counters (snd (QueryAndOwn_inner e m w q lease_seconds limit user))
           ''grr_task_ttl_expired_count'' =
         counters w ''grr_task_ttl_expired_count'' +
         length (filter (\<lambda>c. \<not> survives c) ?vis)"
    unfolding unfold using cnt by simp
qed


lemma QueryAndOwn_ok:
  assumes l: "lock_error e = None" and r: "resolve_error e = None"
    and ms: "multiset_error e = None" and dr: "distinct (map fst (db w q))"
    and lease: "long_times_1e6 lease_seconds = Inr lease"
  shows "fst (QueryAndOwn e m w q lease_seconds limit) =
           Inr (map (leased (lease_tag_of e m)) (filter survives (visited e m w q limit)))"
    and "db (snd (QueryAndOwn e m w q lease_seconds limit)) =
           (db w)(q := new_row (lease_tag_of e m) (time_time e + lease)
                         (visited e m w q limit) (db w q))"
    and "counters (snd (QueryAndOwn e m w q lease_seconds limit))
           ''grr_task_ttl_expired_count'' =
         counters w ''grr_task_ttl_expired_count'' +
         length (filter (\<lambda>c. \<not> survives c) (visited e m w q limit))"
proof -
  let ?user = "case token m of Some username \<Rightarrow> username | None \<Rightarrow> []"
  let ?inner = "QueryAndOwn_inner e m w q lease_seconds limit ?user"
  note inner = QueryAndOwn_inner_ok [OF r ms dr refl lease, where m = m and limit = limit]
  obtain x w' where iw: "?inner = (Inr x, w')"
    using inner(1) by (cases ?inner) auto
  have q: "QueryAndOwn e m w q lease_seconds limit = ?inner"
    by (simp add: QueryAndOwn_def LockRetryWrapper_def l iw)
  show "fst (QueryAndOwn e m w q lease_seconds limit) =
           Inr (map (leased (lease_tag_of e m)) (filter survives (visited e m w q limit)))"
    unfolding q by (rule inner(1))
  show "db (snd (QueryAndOwn e m w q lease_seconds limit)) =
           (db w)(q := new_row (lease_tag_of e m) (time_time e + lease)
                         (visited e m w q limit) (db w q))"
    unfolding q by (rule inner(2))
  show "counters (snd (QueryAndOwn e m w q lease_seconds limit))
           ''grr_task_ttl_expired_count'' =
         counters w ''grr_task_ttl_expired_count'' +
         length (filter (\<lambda>c. \<not> survives c) (visited e m w q limit))"
    unfolding q by (rule inner(3))
qed



lemma example_visible:
  "visible_cells example_env example_manager example_world ''C.1'' = db example_world ''C.1''"
  by (simp add: visible_cells_def frozen_or_now_def example_env_def example_manager_def
        example_world_def TASK_PREDICATE_PREFIX_def)


lemma example_visited_10:
  "visited example_env example_manager example_world ''C.1'' 10 = db example_world ''C.1''"
  unfolding visited_def example_visible
  by (simp add: example_world_def survives_def example_task_def)

lemma example_distinct: "distinct (map fst (db example_world ''C.1''))"
  by (simp add: example_world_def)

lemma setdefault_append_nonempty: "setdefault_append k v d \<noteq> []"
  by (cases "map_of d k") (auto simp: setdefault_append_def)

lemma loop_dict_nonempty:
  "serialized_tasks_dict s \<noteq> [] \<Longrightarrow>
   serialized_tasks_dict (QueryAndOwn_loop tag mttl limit cells s) \<noteq> []"
proof (induction cells arbitrary: s)
  case Nil
  then show ?case by simp
next
  case (Cons c cells)
  obtain p t ts where c: "c = (p, t, ts)" by (cases c)
  show ?case
    using Cons.prems
    by (simp add: c Let_def Cons.IH setdefault_append_nonempty)
qed

lemma loop_dict_empty_tasks:
  "serialized_tasks_dict (QueryAndOwn_loop tag mttl limit cells s) = [] \<Longrightarrow>
   tasks (QueryAndOwn_loop tag mttl limit cells s) = tasks s"
proof (induction cells arbitrary: s)
  case Nil
  then show ?case by simp
next
  case (Cons c cells)
  obtain p t ts where c: "c = (p, t, ts)" by (cases c)
  show ?case
  proof (cases "task_ttl t - 1 \<le> 0")
    case True
    with Cons.prems Cons.IH [of "s\<lparr>delete_attrs := insert p (delete_attrs s),
          scan_world := IncrementCounter ''grr_task_ttl_expired_count'' (scan_world s)\<rparr>"]
    show ?thesis by (simp add: c)
  next
    case False
    let ?t1 = "t\<lparr>eta := ts, last_lease := tag, task_ttl := task_ttl t - 1\<rparr>"
    let ?s1 = "if task_ttl t - 1 \<noteq> mttl - 1
               then s\<lparr>scan_world := IncrementCounter ''grr_task_retransmission_count'' (scan_world s)\<rparr>
               else s"
    let ?s2 = "?s1\<lparr>serialized_tasks_dict := setdefault_append p ?t1 (serialized_tasks_dict ?s1),
                     tasks := tasks ?s1 @ [?t1]\<rparr>"
    have ne: "serialized_tasks_dict ?s2 \<noteq> []"
      by (simp add: setdefault_append_nonempty)
    have step: "QueryAndOwn_loop tag mttl limit (c # cells) s =
        (if limit \<le> int (length (tasks ?s2)) then ?s2
         else QueryAndOwn_loop tag mttl limit cells ?s2)"
      using False by (simp add: c Let_def)
    have "serialized_tasks_dict (QueryAndOwn_loop tag mttl limit (c # cells) s) \<noteq> []"
      unfolding step using ne loop_dict_nonempty [OF ne, of tag mttl limit cells]
      by (simp del: QueryAndOwn_loop.simps)
    with Cons.prems show ?thesis by simp
  qed
qed

lemma QueryAndOwn_inner_multiset_fails:
  assumes r: "resolve_error e = None" and ms: "multiset_error e = Some err"
    and lease: "long_times_1e6 lease_seconds = Inr lease"
  shows "(fst (QueryAndOwn_inner e m w q lease_seconds limit user) = Inl err \<or>
          fst (QueryAndOwn_inner e m w q lease_seconds limit user) = Inr []) \<and>
         db (snd (QueryAndOwn_inner e m w q lease_seconds limit user)) = db w"
proof -
  let ?tag = "user @ ''@'' @ hostname e @ '':'' @ str_int (pid e)"
  let ?cells = "visible_cells e m w q"
  let ?init = "\<lparr>tasks = [], delete_attrs = {}, serialized_tasks_dict = [], scan_world = w\<rparr>"
  let ?s = "QueryAndOwn_loop ?tag (max_ttl e) limit ?cells ?init"
  have res: "ResolvePrefix e w q TASK_PREDICATE_PREFIX
      (0, frozen_or_now e m) = Inr ?cells"
    using r by (simp add: ResolvePrefix_def visible_cells_def)
  have mset: "MultiSet e (scan_world ?s) q (serialized_tasks_dict ?s)
      (time_time e + lease) (delete_attrs ?s) = Inl err"
    using ms by (simp add: MultiSet_def)
  have unfold: "QueryAndOwn_inner e m w q lease_seconds limit user =
      (if delete_attrs ?s \<noteq> {} \<or> serialized_tasks_dict ?s \<noteq> []
       then (Inl err, scan_world ?s)
       else (Inr (tasks ?s), scan_world ?s))"
  proof -
    have "QueryAndOwn_inner e m w q lease_seconds limit user =
      (if delete_attrs ?s \<noteq> {} \<or> serialized_tasks_dict ?s \<noteq> []
       then (case MultiSet e (scan_world ?s) q (serialized_tasks_dict ?s)
                    (time_time e + lease) (delete_attrs ?s) of
               Inl err \<Rightarrow> (Inl err, scan_world ?s)
             | Inr w' \<Rightarrow> (Inr (tasks ?s), w'))
       else (Inr (tasks ?s), scan_world ?s))"
      unfolding QueryAndOwn_inner_def Let_def lease res by simp
    then show ?thesis unfolding mset by simp
  qed
  have dbs: "db (scan_world ?s) = db w" by (simp add: loop_db)
  have t0: "tasks ?s = []" if "serialized_tasks_dict ?s = []"
    using loop_dict_empty_tasks [OF that] by simp
  show ?thesis
    unfolding unfold using dbs t0 by auto
qed

lemma QueryAndOwn_catch:
  assumes l: "lock_error e = None"
  shows "snd (QueryAndOwn e m w q lease_seconds limit) =
           snd (QueryAndOwn_inner e m w q lease_seconds limit
                  (case token m of Some username \<Rightarrow> username | None \<Rightarrow> []))"
    and "returned (fst (QueryAndOwn e m w q lease_seconds limit)) =
           returned (fst (QueryAndOwn_inner e m w q lease_seconds limit
                  (case token m of Some username \<Rightarrow> username | None \<Rightarrow> [])))"
    and "fst (QueryAndOwn_inner e m w q lease_seconds limit
                  (case token m of Some username \<Rightarrow> username | None \<Rightarrow> [])) = Inl err \<Longrightarrow>
         is_store_error err \<Longrightarrow> fst (QueryAndOwn e m w q lease_seconds limit) = Inr []"
    and "fst (QueryAndOwn_inner e m w q lease_seconds limit
                  (case token m of Some username \<Rightarrow> username | None \<Rightarrow> [])) = Inr ts \<Longrightarrow>
         fst (QueryAndOwn e m w q lease_seconds limit) = Inr ts"
proof -
  let ?inner = "QueryAndOwn_inner e m w q lease_seconds limit
                  (case token m of Some username \<Rightarrow> username | None \<Rightarrow> [])"
  obtain res w' where iw: "?inner = (res, w')" by (cases ?inner)
  have q: "QueryAndOwn e m w q lease_seconds limit =
      (case (res, w') of
         (Inl DBSubjectLockError, w') \<Rightarrow> (Inr [], w')
       | (Inl (DatastoreError msg), w') \<Rightarrow> (Inr [], w')
       | (Inl err, w') \<Rightarrow> (Inl err, w')
       | (Inr ts, w') \<Rightarrow> (Inr ts, w'))"
    by (simp add: QueryAndOwn_def LockRetryWrapper_def l iw)
  show "snd (QueryAndOwn e m w q lease_seconds limit) = snd ?inner"
    unfolding q iw by (cases res) (auto split: error.split)
  show "returned (fst (QueryAndOwn e m w q lease_seconds limit)) = returned (fst ?inner)"
    unfolding q iw by (cases res) (auto simp: returned_def split: error.split)
  show "fst ?inner = Inl err \<Longrightarrow> is_store_error err \<Longrightarrow>
      fst (QueryAndOwn e m w q lease_seconds limit) = Inr []"
    unfolding q iw by (cases err) (auto simp: is_store_error_def)
  show "fst ?inner = Inr ts \<Longrightarrow> fst (QueryAndOwn e m w q lease_seconds limit) = Inr ts"
    unfolding q iw by auto
qed


lemma QueryAndOwn_lock_fails:
  assumes l: "lock_error e = Some err"
  shows "snd (QueryAndOwn e m w q lease_seconds limit) = w"
    and "returned (fst (QueryAndOwn e m w q lease_seconds limit)) = []"
    and "is_store_error err \<Longrightarrow> fst (QueryAndOwn e m w q lease_seconds limit) = Inr []"
proof -
  have q: "QueryAndOwn e m w q lease_seconds limit =
      (case (Inl err, w) of
         (Inl DBSubjectLockError, w') \<Rightarrow> (Inr [], w')
       | (Inl (DatastoreError msg), w') \<Rightarrow> (Inr [], w')
       | (Inl err, w') \<Rightarrow> (Inl err, w')
       | (Inr ts, w') \<Rightarrow> (Inr ts, w'))"
    by (simp add: QueryAndOwn_def LockRetryWrapper_def l)
  show "snd (QueryAndOwn e m w q lease_seconds limit) = w"
    unfolding q by (cases err) auto
  show "returned (fst (QueryAndOwn e m w q lease_seconds limit)) = []"
    unfolding q by (cases err) (auto simp: returned_def)
  show "is_store_error err \<Longrightarrow> fst (QueryAndOwn e m w q lease_seconds limit) = Inr []"
    unfolding q by (cases err) (auto simp: is_store_error_def)
qed

lemma QueryAndOwn_inner_overflow:
  "long_times_1e6 lease_seconds = Inl err \<Longrightarrow>
   QueryAndOwn_inner e m w q lease_seconds limit user = (Inl err, w)"
  by (simp add: QueryAndOwn_inner_def)

lemma QueryAndOwn_inner_resolve_fails:
  "resolve_error e = Some err \<Longrightarrow> long_times_1e6 lease_seconds = Inr lease \<Longrightarrow>
   QueryAndOwn_inner e m w q lease_seconds limit user = (Inl err, w)"
  by (simp add: QueryAndOwn_inner_def ResolvePrefix_def)

lemma QueryAndOwn_inner_nothing_visible:
  assumes r: "resolve_error e = None" and v: "visible_cells e m w q = []"
    and lease: "long_times_1e6 lease_seconds = Inr lease"
  shows "QueryAndOwn_inner e m w q lease_seconds limit user = (Inr [], w)"
proof -
  have res: "ResolvePrefix e w q TASK_PREDICATE_PREFIX
      (0, frozen_or_now e m) = Inr []"
    using r v by (simp add: ResolvePrefix_def visible_cells_def)
  show ?thesis
    unfolding QueryAndOwn_inner_def Let_def lease res by simp
qed

lemma leased_task_id: "task_id (leased tag c) = task_id (fst (snd c))"
  by (simp add: leased_def)

lemma new_row_keys:
  "map fst (new_row tag T vis cells) =
     map fst (filter (\<lambda>c. \<not> (c \<in> set vis \<and> \<not> survives c)) cells)"
  by (induction cells) (auto simp: new_row_def)

lemma new_row_ids:
  "map (\<lambda>c. task_id (fst (snd c))) (new_row tag T vis cells) =
     map (\<lambda>c. task_id (fst (snd c))) (filter (\<lambda>c. \<not> (c \<in> set vis \<and> \<not> survives c)) cells)"
  by (induction cells) (auto simp: new_row_def leased_def)

lemma new_row_distinct: "distinct (map fst cells) \<Longrightarrow> distinct (map fst (new_row tag T vis cells))"
  by (simp add: new_row_keys distinct_map_filter)

lemma new_row_task_ids: "task_ids (new_row tag T vis cells) \<subseteq> task_ids cells"
proof -
  have "task_ids (new_row tag T vis cells) =
      set (map (\<lambda>c. task_id (fst (snd c))) (new_row tag T vis cells))"
    by (simp add: task_ids_def)
  also have "\<dots> \<subseteq> task_ids cells"
    unfolding new_row_ids by (auto simp: task_ids_def)
  finally show ?thesis .
qed

lemma QueryAndOwn_any:
  assumes dr: "distinct (map fst (db w q))"
  shows "db (snd (QueryAndOwn e m w q lease_seconds limit)) q = db w q \<or>
         (\<exists>T. db (snd (QueryAndOwn e m w q lease_seconds limit)) q =
           new_row (lease_tag_of e m) T (visited e m w q limit) (db w q))"
    and "task_id ` set (returned (fst (QueryAndOwn e m w q lease_seconds limit)))
           \<subseteq> task_ids (db w q)"
proof -
  let ?Q = "QueryAndOwn e m w q lease_seconds limit"
  let ?user = "case token m of Some username \<Rightarrow> username | None \<Rightarrow> []"
  let ?inner = "QueryAndOwn_inner e m w q lease_seconds limit ?user"
  let ?new = "\<lambda>T. new_row (lease_tag_of e m) T (visited e m w q limit) (db w q)"
  have "(db (snd ?Q) q = db w q \<or> (\<exists>T. db (snd ?Q) q = ?new T)) \<and>
      task_id ` set (returned (fst ?Q)) \<subseteq> task_ids (db w q)"
  proof (cases "lock_error e")
    case (Some err)
    from QueryAndOwn_lock_fails(1,2) [OF Some, of m w q lease_seconds limit]
    show ?thesis by simp
  next
    case None
    note c = QueryAndOwn_catch(1,2) [OF None, of m w q lease_seconds limit]
    show ?thesis
    proof (cases "long_times_1e6 lease_seconds")
      case (Inl err)
      from QueryAndOwn_inner_overflow [OF Inl, of e m w q limit ?user]
      show ?thesis unfolding c by (simp add: returned_def)
    next
      case (Inr lease)
      show ?thesis
      proof (cases "resolve_error e")
        case (Some err)
        from QueryAndOwn_inner_resolve_fails [OF Some Inr, of m w q limit ?user]
        show ?thesis unfolding c by (simp add: returned_def)
      next
        case rn: None
        show ?thesis
        proof (cases "multiset_error e")
          case (Some err)
          from QueryAndOwn_inner_multiset_fails [OF rn Some Inr, of m w q limit ?user]
          show ?thesis unfolding c by (auto simp: returned_def)
        next
          case mn: None
          note i = QueryAndOwn_inner_ok [OF rn mn dr refl Inr, where m = m and limit = limit]
          have "task_id ` set (returned (fst ?inner)) \<subseteq> task_ids (db w q)"
            unfolding i(1) using visited_subset [of e m w q limit]
            by (force simp: returned_def leased_task_id task_ids_def)
          moreover have "db (snd ?inner) q = ?new (time_time e + lease)"
            unfolding i(2) by simp
          ultimately show ?thesis unfolding c by blast
        qed
      qed
    qed
  qed
  then show "db (snd ?Q) q = db w q \<or> (\<exists>T. db (snd ?Q) q = ?new T)"
    and "task_id ` set (returned (fst ?Q)) \<subseteq> task_ids (db w q)"
    by simp_all
qed

lemma QueryAndOwn_keeps_row:
  assumes dr: "distinct (map fst (db w q))"
  shows "distinct (map fst (db (snd (QueryAndOwn e m w q lease_seconds limit)) q))"
    and "task_ids (db (snd (QueryAndOwn e m w q lease_seconds limit)) q) \<subseteq> task_ids (db w q)"
proof -
  from QueryAndOwn_any(1) [OF dr, of e m lease_seconds limit]
  have "distinct (map fst (db (snd (QueryAndOwn e m w q lease_seconds limit)) q)) \<and>
      task_ids (db (snd (QueryAndOwn e m w q lease_seconds limit)) q) \<subseteq> task_ids (db w q)"
  proof
    assume "db (snd (QueryAndOwn e m w q lease_seconds limit)) q = db w q"
    with dr show ?thesis by simp
  next
    assume "\<exists>T. db (snd (QueryAndOwn e m w q lease_seconds limit)) q =
        new_row (lease_tag_of e m) T (visited e m w q limit) (db w q)"
    then obtain T where n: "db (snd (QueryAndOwn e m w q lease_seconds limit)) q =
        new_row (lease_tag_of e m) T (visited e m w q limit) (db w q)" ..
    show ?thesis
      unfolding n using new_row_distinct [OF dr] new_row_task_ids by blast
  qed
  then show "distinct (map fst (db (snd (QueryAndOwn e m w q lease_seconds limit)) q))"
    and "task_ids (db (snd (QueryAndOwn e m w q lease_seconds limit)) q) \<subseteq> task_ids (db w q)"
    by simp_all
qed

lemma QueryAndOwn_calls_ids:
  "distinct (map fst (db w q)) \<Longrightarrow> res \<in> set (fst (QueryAndOwn_calls cs q w)) \<Longrightarrow>
   t' \<in> set (returned res) \<Longrightarrow> task_id t' \<in> task_ids (db w q)"
proof (induction cs arbitrary: w)
  case Nil
  then show ?case by simp
next
  case (Cons call cs)
  obtain e m lease_seconds limit where call: "call = (e, m, lease_seconds, limit)"
    by (cases call)
  let ?Q = "QueryAndOwn e m w q lease_seconds limit"
  obtain r1 w1 where Q: "?Q = (r1, w1)" by (cases ?Q)
  obtain ress w'' where rest1: "QueryAndOwn_calls cs q w1 = (ress, w'')"
    by (cases "QueryAndOwn_calls cs q w1")
  have rest: "QueryAndOwn_calls cs q (snd ?Q) = (ress, w'')"
    by (simp add: Q rest1)
  have unfold: "fst (QueryAndOwn_calls (call # cs) q w) = fst ?Q # ress"
    by (simp add: call Q rest1)
  from Cons.prems(2) unfold have "res = fst ?Q \<or> res \<in> set ress" by simp
  then show ?case
  proof
    assume "res = fst ?Q"
    with QueryAndOwn_any(2) [OF Cons.prems(1), of e m lease_seconds limit] Cons.prems(3)
    show ?thesis by auto
  next
    assume "res \<in> set ress"
    then have "res \<in> set (fst (QueryAndOwn_calls cs q (snd ?Q)))" by (simp add: rest)
    from Cons.IH [OF QueryAndOwn_keeps_row(1) [OF Cons.prems(1)] this Cons.prems(3)]
    have "task_id t' \<in> task_ids (db (snd ?Q) q)" .
    with QueryAndOwn_keeps_row(2) [OF Cons.prems(1), of e m lease_seconds limit]
    show ?thesis by auto
  qed
qed


lemma new_row_member:
  "c \<in> set cells \<Longrightarrow> c \<in> set vis \<Longrightarrow> survives c \<Longrightarrow>
   (fst c, leased tag c, T) \<in> set (new_row tag T vis cells)"
  by (induction cells) (auto simp: new_row_def)

lemma new_row_dropped:
  assumes dt: "distinct (map (\<lambda>c. task_id (fst (snd c))) cells)"
    and c: "c \<in> set cells" "c \<in> set vis" "\<not> survives c"
  shows "task_id (fst (snd c)) \<notin> task_ids (new_row tag T vis cells)"
proof
  assume "task_id (fst (snd c)) \<in> task_ids (new_row tag T vis cells)"
  then have "task_id (fst (snd c)) \<in>
      set (map (\<lambda>c. task_id (fst (snd c))) (new_row tag T vis cells))"
    by (simp add: task_ids_def)
  then obtain c' where c': "c' \<in> set cells" "\<not> (c' \<in> set vis \<and> \<not> survives c')"
      "task_id (fst (snd c')) = task_id (fst (snd c))"
    unfolding new_row_ids by auto
  from dt have "inj_on (\<lambda>c. task_id (fst (snd c))) (set cells)"
    by (simp add: distinct_map)
  from inj_onD [OF this c'(3) c'(1) c(1)] have "c' = c" .
  with c' c show False by simp
qed





text \<open>
  Claim C8. \<^verbatim>\<open>QueryAndOwn\<close> returns the empty list, and does not raise, when the lock on the
  queue cannot be obtained, and, for a lease time in the range of a double, when a call of
  the data store raises a data store error during leasing and when no task of the queue is
  visible.
\<close>

theorem QueryAndOwn_empty_on_store_errors:
  assumes "(lock_error e = Some err \<and> is_store_error err) \<or>
     (lock_error e = None \<and> long_times_1e6 lease_seconds = Inr lease \<and>
        resolve_error e = Some err \<and> is_store_error err) \<or>
     (lock_error e = None \<and> long_times_1e6 lease_seconds = Inr lease \<and>
        resolve_error e = None \<and> multiset_error e = Some err \<and> is_store_error err) \<or>
     (lock_error e = None \<and> long_times_1e6 lease_seconds = Inr lease \<and>
        resolve_error e = None \<and> visible_cells e m w q = [])"
  shows "fst (QueryAndOwn e m w q lease_seconds limit) = Inr []"
proof -
  let ?user = "case token m of Some username \<Rightarrow> username | None \<Rightarrow> []"
  let ?inner = "QueryAndOwn_inner e m w q lease_seconds limit ?user"
  from assms show ?thesis
  proof (elim disjE conjE)
    assume "lock_error e = Some err" "is_store_error err"
    then show ?thesis by (rule QueryAndOwn_lock_fails(3))
  next
    assume a: "lock_error e = None" "long_times_1e6 lease_seconds = Inr lease"
      "resolve_error e = Some err" "is_store_error err"
    have "fst ?inner = Inl err"
      by (simp add: QueryAndOwn_inner_resolve_fails [OF a(3,2)])
    from QueryAndOwn_catch(3) [OF a(1) this a(4)] show ?thesis .
  next
    assume a: "lock_error e = None" "long_times_1e6 lease_seconds = Inr lease"
      "resolve_error e = None" "multiset_error e = Some err" "is_store_error err"
    from QueryAndOwn_inner_multiset_fails [OF a(3,4,2), of m w q limit ?user]
    have "fst ?inner = Inl err \<or> fst ?inner = Inr []" by simp
    then show ?thesis
    proof
      assume "fst ?inner = Inl err"
      from QueryAndOwn_catch(3) [OF a(1) this a(5)] show ?thesis .
    next
      assume "fst ?inner = Inr []"
      from QueryAndOwn_catch(4) [OF a(1) this] show ?thesis .
    qed
  next
    assume a: "lock_error e = None" "long_times_1e6 lease_seconds = Inr lease"
      "resolve_error e = None" "visible_cells e m w q = []"
    have "fst ?inner = Inr []"
      by (simp add: QueryAndOwn_inner_nothing_visible [OF a(3,4,2)])
    from QueryAndOwn_catch(4) [OF a(1) this] show ?thesis .
  qed
qed

theorem QueryAndOwn_empty_on_store_errors_witness:
  "fst (QueryAndOwn (example_env\<lparr>lock_error := Some DBSubjectLockError\<rparr>) example_manager
          example_world ''C.1'' 10 2) = Inr [] \<and>
   fst (QueryAndOwn (example_env\<lparr>resolve_error := Some (DatastoreError ''down'')\<rparr>)
          example_manager example_world ''C.1'' 10 2) = Inr [] \<and>
   fst (QueryAndOwn (example_env\<lparr>multiset_error := Some (DatastoreError ''down'')\<rparr>)
          example_manager example_world ''C.1'' 10 2) = Inr [] \<and>
   fst (QueryAndOwn example_env example_manager example_world ''C.2'' 10 2) = Inr []"
proof -
  have v: "visible_cells example_env example_manager example_world ''C.2'' = []"
    by (simp add: visible_cells_def example_world_def)
  have a: "fst (QueryAndOwn (example_env\<lparr>lock_error := Some DBSubjectLockError\<rparr>) example_manager
          example_world ''C.1'' 10 2) = Inr []"
    by (rule QueryAndOwn_empty_on_store_errors [where err = DBSubjectLockError
          and lease = 10000000])
       (simp add: is_store_error_def)
  have b: "fst (QueryAndOwn (example_env\<lparr>resolve_error := Some (DatastoreError ''down'')\<rparr>)
          example_manager example_world ''C.1'' 10 2) = Inr []"
    by (rule QueryAndOwn_empty_on_store_errors [where err = "DatastoreError ''down''"
          and lease = 10000000])
       (simp add: is_store_error_def example_env_def example_lease)
  have c: "fst (QueryAndOwn (example_env\<lparr>multiset_error := Some (DatastoreError ''down'')\<rparr>)
          example_manager example_world ''C.1'' 10 2) = Inr []"
    by (rule QueryAndOwn_empty_on_store_errors [where err = "DatastoreError ''down''"
          and lease = 10000000])
       (simp add: is_store_error_def example_env_def example_lease)
  have d: "fst (QueryAndOwn example_env example_manager example_world ''C.2'' 10 2) = Inr []"
    by (rule QueryAndOwn_empty_on_store_errors [where err = LockError and lease = 10000000])
       (use v in \<open>simp add: example_env_def example_lease\<close>)
  from a b c d show ?thesis by (intro conjI)
qed

text \<open>
  Claim C4. Let a lease call with a lease time in the range of a double obtain the lock,
  meet no store error and visit a task of a queue whose cells have distinct predicates and
  task ids. If the task's TTL minus one is still
  positive, the task is returned and stored again with its TTL decremented by exactly one.
  Otherwise the task is removed from the queue, the counter
  \<^verbatim>\<open>grr_task_ttl_expired_count\<close> is incremented by this call, and no later sequence of
  \<^verbatim>\<open>QueryAndOwn\<close> calls on the queue, whatever their outcome, returns a task with its id.
\<close>

theorem ttl_decrements_until_dropped:
  assumes l: "lock_error e = None" and r: "resolve_error e = None"
    and ms: "multiset_error e = None"
    and dp: "distinct (map fst (db w q))"
    and dt: "distinct (map (\<lambda>c. task_id (fst (snd c))) (db w q))"
    and c: "(p, t, ts) \<in> set (visited e m w q limit)"
    and lease: "long_times_1e6 lease_seconds = Inr lease"
  shows "(0 < task_ttl t - 1 \<longrightarrow>
           leased (lease_tag_of e m) (p, t, ts)
             \<in> set (returned (fst (QueryAndOwn e m w q lease_seconds limit))) \<and>
           task_ttl (leased (lease_tag_of e m) (p, t, ts)) = task_ttl t - 1 \<and>
           (p, leased (lease_tag_of e m) (p, t, ts), time_time e + lease)
             \<in> set (db (snd (QueryAndOwn e m w q lease_seconds limit)) q)) \<and>
         (task_ttl t - 1 \<le> 0 \<longrightarrow>
           task_id t \<notin> task_ids (db (snd (QueryAndOwn e m w q lease_seconds limit)) q) \<and>
           (\<forall>cs. \<forall>res\<in>set (fst (QueryAndOwn_calls cs q
                                    (snd (QueryAndOwn e m w q lease_seconds limit)))).
                  \<forall>t'\<in>set (returned res). task_id t' \<noteq> task_id t) \<and>
           counters w ''grr_task_ttl_expired_count'' <
             counters (snd (QueryAndOwn e m w q lease_seconds limit))
               ''grr_task_ttl_expired_count'') \<and>
         counters (snd (QueryAndOwn e m w q lease_seconds limit)) ''grr_task_ttl_expired_count'' =
           counters w ''grr_task_ttl_expired_count'' +
           length (filter (\<lambda>c. \<not> survives c) (visited e m w q limit))"
proof -
  let ?Q = "QueryAndOwn e m w q lease_seconds limit"
  let ?tag = "lease_tag_of e m"
  let ?T = "time_time e + lease"
  let ?vis = "visited e m w q limit"
  let ?c = "(p, t, ts)"
  note q = QueryAndOwn_ok [OF l r ms dp lease, where m = m and limit = limit]
  have row: "db (snd ?Q) q = new_row ?tag ?T ?vis (db w q)"
    unfolding q(2) by simp
  from c visited_subset [of e m w q limit] have cr: "?c \<in> set (db w q)" by auto
  have alive: "leased ?tag ?c \<in> set (returned (fst ?Q)) \<and>
      task_ttl (leased ?tag ?c) = task_ttl t - 1 \<and>
      (p, leased ?tag ?c, ?T) \<in> set (db (snd ?Q) q)" if "0 < task_ttl t - 1"
  proof -
    from that have sv: "survives ?c" by (simp add: survives_def)
    with c have "leased ?tag ?c \<in> set (returned (fst ?Q))"
      unfolding q(1) by (simp add: returned_def)
    moreover have "task_ttl (leased ?tag ?c) = task_ttl t - 1"
      by (simp add: leased_def)
    moreover from new_row_member [OF cr c sv, of ?tag ?T]
    have "(p, leased ?tag ?c, ?T) \<in> set (db (snd ?Q) q)"
      unfolding row by simp
    ultimately show ?thesis by (intro conjI)
  qed
  have dead: "task_id t \<notin> task_ids (db (snd ?Q) q) \<and>
      (\<forall>cs. \<forall>res\<in>set (fst (QueryAndOwn_calls cs q (snd ?Q))).
             \<forall>t'\<in>set (returned res). task_id t' \<noteq> task_id t) \<and>
      counters w ''grr_task_ttl_expired_count'' <
        counters (snd ?Q) ''grr_task_ttl_expired_count''" if "task_ttl t - 1 \<le> 0"
  proof -
    from that have nsv: "\<not> survives ?c" by (simp add: survives_def)
    from new_row_dropped [OF dt cr c nsv, of ?tag ?T]
    have gone: "task_id t \<notin> task_ids (db (snd ?Q) q)"
      unfolding row by simp
    have later: "\<forall>cs. \<forall>res\<in>set (fst (QueryAndOwn_calls cs q (snd ?Q))).
        \<forall>t'\<in>set (returned res). task_id t' \<noteq> task_id t"
    proof (intro allI ballI)
      fix cs res t'
      assume "res \<in> set (fst (QueryAndOwn_calls cs q (snd ?Q)))" "t' \<in> set (returned res)"
      from QueryAndOwn_calls_ids [OF QueryAndOwn_keeps_row(1) [OF dp] this]
      have "task_id t' \<in> task_ids (db (snd ?Q) q)" .
      with gone show "task_id t' \<noteq> task_id t" by auto
    qed
    from c nsv have "?c \<in> set (filter (\<lambda>c. \<not> survives c) ?vis)" by simp
    then have "0 < length (filter (\<lambda>c. \<not> survives c) ?vis)"
      by (metis length_pos_if_in_set)
    then have "counters w ''grr_task_ttl_expired_count'' <
        counters (snd ?Q) ''grr_task_ttl_expired_count''"
      unfolding q(3) by simp
    with gone later show ?thesis by (intro conjI)
  qed
  show ?thesis
  proof (intro conjI impI)
    assume "0 < task_ttl t - 1"
    from alive [OF this] show "leased ?tag ?c \<in> set (returned (fst ?Q))"
      and "task_ttl (leased ?tag ?c) = task_ttl t - 1"
      and "(p, leased ?tag ?c, ?T) \<in> set (db (snd ?Q) q)"
      by simp_all
  next
    assume "task_ttl t - 1 \<le> 0"
    note d = dead [OF this]
    from d [THEN conjunct1] show "task_id t \<notin> task_ids (db (snd ?Q) q)" .
    from d [THEN conjunct2, THEN conjunct1]
    show "\<forall>cs. \<forall>res\<in>set (fst (QueryAndOwn_calls cs q (snd ?Q))).
             \<forall>t'\<in>set (returned res). task_id t' \<noteq> task_id t" .
    from d [THEN conjunct2, THEN conjunct2]
    show "counters w ''grr_task_ttl_expired_count'' <
        counters (snd ?Q) ''grr_task_ttl_expired_count''" .
  next
    show "counters (snd ?Q) ''grr_task_ttl_expired_count'' =
        counters w ''grr_task_ttl_expired_count'' +
        length (filter (\<lambda>c. \<not> survives c) ?vis)"
      by (rule q(3))
  qed
qed

theorem ttl_decrements_until_dropped_witness:
  "leased ''@host:1'' (''task:00000001'', example_task 1 0 5, 10)
     \<in> set (returned (fst (QueryAndOwn example_env example_manager example_world ''C.1'' 10 10))) \<and>
   task_ttl (leased ''@host:1'' (''task:00000001'', example_task 1 0 5, 10)) = 4 \<and>
   4 \<notin> task_ids (db (snd (QueryAndOwn example_env example_manager example_world ''C.1'' 10 10)) ''C.1'') \<and>
   counters (snd (QueryAndOwn example_env example_manager example_world ''C.1'' 10 10))
     ''grr_task_ttl_expired_count'' = 1"
proof -
  have e: "lock_error example_env = None" "resolve_error example_env = None"
      "multiset_error example_env = None"
    by (simp_all add: example_env_def)
  have tag: "lease_tag_of example_env example_manager = ''@host:1''"
    by (simp add: lease_tag_of_def example_env_def example_manager_def str_int_def digit_char_def)
  have dt: "distinct (map (\<lambda>c. task_id (fst (snd c))) (db example_world ''C.1''))"
    by (simp add: example_world_def example_task_def)
  have c1: "(''task:00000001'', example_task 1 0 5, 10)
      \<in> set (visited example_env example_manager example_world ''C.1'' 10)"
    unfolding example_visited_10 by (simp add: example_world_def)
  have c4: "(''task:00000004'', example_task 4 1 1, 40)
      \<in> set (visited example_env example_manager example_world ''C.1'' 10)"
    unfolding example_visited_10 by (simp add: example_world_def)
  have cnt0: "counters example_world ''grr_task_ttl_expired_count'' = 0"
    by (simp add: example_world_def)
  have n: "length (filter (\<lambda>c. \<not> survives c)
      (visited example_env example_manager example_world ''C.1'' 10)) = 1"
    unfolding example_visited_10 by (simp add: example_world_def survives_def example_task_def)
  from ttl_decrements_until_dropped [OF e example_distinct dt c1 example_lease]
  have a: "leased ''@host:1'' (''task:00000001'', example_task 1 0 5, 10)
     \<in> set (returned (fst (QueryAndOwn example_env example_manager example_world ''C.1'' 10 10))) \<and>
     task_ttl (leased ''@host:1'' (''task:00000001'', example_task 1 0 5, 10)) = 4"
    unfolding tag by (simp add: example_task_def)
  from ttl_decrements_until_dropped [OF e example_distinct dt c4 example_lease]
  have b: "4 \<notin> task_ids (db (snd (QueryAndOwn example_env example_manager example_world ''C.1'' 10 10)) ''C.1'') \<and>
     counters (snd (QueryAndOwn example_env example_manager example_world ''C.1'' 10 10))
       ''grr_task_ttl_expired_count'' = 1"
    unfolding n cnt0 by (auto simp: example_task_def)
  from a b show ?thesis by simp
qed


subsection \<open>Lemmas about QueueNotification\<close>

lemma map_of_replace:
  "map_of (map (\<lambda>(k', v'). if k' = k then (k', v) else (k', v')) d) x =
     (if x = k then (if k \<in> fst ` set d then Some v else None) else map_of d x)"
  by (induction d) (force split: if_splits)+

lemma map_of_assign: "map_of (assign k v d) = (map_of d)(k \<mapsto> v)"
proof (cases "k \<in> fst ` set d")
  case False
  then have "map_of d k = None" by (simp add: map_of_eq_None_iff)
  with False show ?thesis
    by (auto simp: assign_def fun_eq_iff map_add_def split: option.split)
next
  case True
  then show ?thesis by (auto simp: assign_def fun_eq_iff map_of_replace)
qed

lemma keys_assign:
  "map fst (assign k v d) = (if k \<in> fst ` set d then map fst d else map fst d @ [k])"
proof -
  have "map fst (map (\<lambda>(k', v'). if k' = k then (k', v) else (k', v')) d) = map fst d"
    by (induction d) auto
  then show ?thesis by (simp add: assign_def)
qed

lemma distinct_assign: "distinct (map fst d) \<Longrightarrow> distinct (map fst (assign k v d))"
  by (auto simp: keys_assign)

lemma key_in_assign: "k \<in> fst ` set (assign k v d)"
proof -
  have "k \<in> set (map fst (assign k v d))" unfolding keys_assign by auto
  then show ?thesis by simp
qed

lemma QueueNotification_frozen [simp]:
  "frozen_timestamp (QueueNotification m n ts) = frozen_timestamp m"
  by (simp add: QueueNotification_def Let_def split: option.split)

lemma QueueNotification_distinct:
  "distinct (map fst (notifications m)) \<Longrightarrow>
   distinct (map fst (notifications (QueueNotification m n ts)))"
  by (simp add: QueueNotification_def Let_def distinct_assign split: option.split)

lemma QueueNotification_step:
  assumes sid: "n_session_id n \<noteq> []"
  shows "map_of (notifications (QueueNotification m n ts))
           (notification_key (n_session_id n) (effective_timestamp m ts)) =
         (case map_of (notifications m)
                 (notification_key (n_session_id n) (effective_timestamp m ts)) of
            None \<Rightarrow> Some (n\<lparr>n_timestamp := effective_timestamp m ts\<rparr>)
          | Some existing \<Rightarrow>
              if last_status existing < last_status n
              then Some (n\<lparr>n_timestamp := effective_timestamp m ts\<rparr>)
              else Some existing)"
  using sid
  by (simp add: QueueNotification_def Let_def effective_timestamp_def map_of_assign
        split: option.split)


lemma QueueNotification_calls_frozen [simp]:
  "frozen_timestamp (QueueNotification_calls m cs) = frozen_timestamp m"
  by (induction cs arbitrary: m) auto

lemma QueueNotification_calls_distinct:
  "distinct (map fst (notifications m)) \<Longrightarrow>
   distinct (map fst (notifications (QueueNotification_calls m cs)))"
  by (induction cs arbitrary: m) (auto simp: QueueNotification_distinct)

lemma effective_timestamp_step [simp]:
  "effective_timestamp (QueueNotification m n ts) ts' = effective_timestamp m ts'"
  by (simp add: effective_timestamp_def split: option.split)

lemma QueueNotification_calls_existing:
  assumes "map_of (notifications m) (notification_key sid tstamp) = Some x"
    and "sid \<noteq> []"
    and "list_all (\<lambda>c. n_session_id (fst c) = sid \<and> effective_timestamp m (snd c) = tstamp) cs"
  shows "\<exists>y. map_of (notifications (QueueNotification_calls m cs)) (notification_key sid tstamp)
               = Some y \<and>
             (y = x \<or> (\<exists>n\<in>fst ` set cs. y = n\<lparr>n_timestamp := tstamp\<rparr>)) \<and>
             last_status x \<le> last_status y \<and>
             (\<forall>n\<in>fst ` set cs. last_status n \<le> last_status y)"
  using assms
proof (induction cs arbitrary: m x)
  case Nil
  then show ?case by simp
next
  case (Cons c cs)
  obtain n ts where c: "c = (n, ts)" by (cases c)
  let ?m1 = "QueueNotification m n ts"
  let ?n1 = "n\<lparr>n_timestamp := tstamp\<rparr>"
  let ?x1 = "if last_status x < last_status n then ?n1 else x"
  from Cons.prems(3) have n: "n_session_id n = sid" "effective_timestamp m ts = tstamp"
    and rest: "list_all (\<lambda>c. n_session_id (fst c) = sid \<and>
        effective_timestamp ?m1 (snd c) = tstamp) cs"
    by (simp_all add: c)
  from Cons.prems(2) n have sid: "n_session_id n \<noteq> []" by simp
  have m1: "map_of (notifications ?m1) (notification_key sid tstamp) = Some ?x1"
    using QueueNotification_step [OF sid, of m ts] Cons.prems(1) by (simp add: n)
  from Cons.IH [OF m1 Cons.prems(2) rest]
  obtain y where y: "map_of (notifications (QueueNotification_calls ?m1 cs))
        (notification_key sid tstamp) = Some y"
      "y = ?x1 \<or> (\<exists>n\<in>fst ` set cs. y = n\<lparr>n_timestamp := tstamp\<rparr>)"
      "last_status ?x1 \<le> last_status y"
      "\<forall>n\<in>fst ` set cs. last_status n \<le> last_status y"
    by blast
  have a: "map_of (notifications (QueueNotification_calls m (c # cs)))
      (notification_key sid tstamp) = Some y"
    using y(1) by (simp add: c)
  have b: "y = x \<or> (\<exists>n\<in>fst ` set (c # cs). y = n\<lparr>n_timestamp := tstamp\<rparr>)"
    using y(2) by (auto simp: c split: if_splits)
  have d: "last_status x \<le> last_status y"
    using y(3) by (auto split: if_splits)
  have e: "\<forall>n\<in>fst ` set (c # cs). last_status n \<le> last_status y"
    using y(3,4) by (auto simp: c split: if_splits)
  from a b d e show ?case by blast
qed

lemma one_entry_per_key:
  "distinct (map fst d) \<Longrightarrow> k \<in> fst ` set d \<Longrightarrow> length (filter (\<lambda>kv. fst kv = k) d) = 1"
proof (induction d)
  case Nil
  then show ?case by simp
next
  case (Cons a d)
  show ?case
  proof (cases "fst a = k")
    case True
    from Cons.prems(1) have "fst a \<notin> fst ` set d" by simp
    with True have "\<forall>x\<in>set d. fst x \<noteq> k" by (metis imageI)
    then have "filter (\<lambda>kv. fst kv = k) d = []"
      by (simp add: filter_empty_conv)
    with True show ?thesis by simp
  next
    case False
    with Cons show ?thesis by auto
  qed
qed

lemma QueueNotification_unfold:
  "n_session_id n \<noteq> [] \<Longrightarrow>
   QueueNotification m n ts =
     (case map_of (notifications m)
             (notification_key (n_session_id n) (effective_timestamp m ts)) of
        Some existing \<Rightarrow>
          if last_status existing < last_status n
          then m\<lparr>notifications :=
                   assign (notification_key (n_session_id n) (effective_timestamp m ts))
                     (n\<lparr>n_timestamp := effective_timestamp m ts\<rparr>) (notifications m)\<rparr>
          else m
      | None \<Rightarrow>
          m\<lparr>notifications :=
              assign (notification_key (n_session_id n) (effective_timestamp m ts))
                (n\<lparr>n_timestamp := effective_timestamp m ts\<rparr>) (notifications m)\<rparr>)"
  by (simp add: QueueNotification_def Let_def effective_timestamp_def split: option.split)

lemma QueueNotification_idempotent:
  "QueueNotification (QueueNotification m n ts) n ts = QueueNotification m n ts"
proof (cases "n_session_id n = []")
  case True
  then show ?thesis by (simp add: QueueNotification_def)
next
  case False
  let ?k = "notification_key (n_session_id n) (effective_timestamp m ts)"
  let ?m1 = "QueueNotification m n ts"
  from QueueNotification_step [OF False, of m ts]
  obtain y where y: "map_of (notifications ?m1) ?k = Some y" "last_status n \<le> last_status y"
    by (cases "map_of (notifications m) ?k") (auto split: if_splits)
  from QueueNotification_unfold [OF False, of ?m1 ts] y show ?thesis by simp
qed


text \<open>
  Claim C5. Let one or more calls of \<^verbatim>\<open>QueueNotification\<close> be made in sequence on a manager,
  all with the same non-empty session id and the same effective timestamp, hence the same
  key, and let the pending-notification buffer (a dictionary, so with distinct keys) hold
  nothing for that key before the first call. Afterwards the buffer holds exactly one entry
  for the key; it is the notification of one of the calls, stamped with the timestamp, and
  no notification of the calls has a higher \<^verbatim>\<open>last_status\<close>. Moreover, queuing a notification
  a second time with the same arguments leaves the manager unchanged.
\<close>

theorem one_notification_per_key:
  assumes ne: "cs \<noteq> []" and sid: "sid \<noteq> []"
    and same: "list_all (\<lambda>c. n_session_id (fst c) = sid \<and>
                             effective_timestamp m (snd c) = tstamp) cs"
    and dk: "distinct (map fst (notifications m))"
    and fresh: "notification_key sid tstamp \<notin> fst ` set (notifications m)"
  shows "(\<exists>n\<in>fst ` set cs.
            map_of (notifications (QueueNotification_calls m cs)) (notification_key sid tstamp)
              = Some (n\<lparr>n_timestamp := tstamp\<rparr>) \<and>
            (\<forall>n'\<in>fst ` set cs. last_status n' \<le> last_status n)) \<and>
         length (filter (\<lambda>kv. fst kv = notification_key sid tstamp)
                   (notifications (QueueNotification_calls m cs))) = 1 \<and>
         QueueNotification (QueueNotification mgr ntf stamp) ntf stamp = QueueNotification mgr ntf stamp"
proof -
  let ?k = "notification_key sid tstamp"
  let ?final = "QueueNotification_calls m cs"
  from ne obtain c rest where cs: "cs = c # rest" by (cases cs) auto
  obtain n ts where c: "c = (n, ts)" by (cases c)
  let ?m1 = "QueueNotification m n ts"
  let ?n1 = "n\<lparr>n_timestamp := tstamp\<rparr>"
  from same have n: "n_session_id n = sid" "effective_timestamp m ts = tstamp"
    and rest: "list_all (\<lambda>c. n_session_id (fst c) = sid \<and>
        effective_timestamp ?m1 (snd c) = tstamp) rest"
    by (simp_all add: cs c)
  from sid n have nsid: "n_session_id n \<noteq> []" by simp
  from fresh have "map_of (notifications m) ?k = None" by (simp add: map_of_eq_None_iff)
  with QueueNotification_step [OF nsid, of m ts]
  have m1: "map_of (notifications ?m1) ?k = Some ?n1" by (simp add: n)
  from QueueNotification_calls_existing [OF m1 sid rest]
  obtain y where y: "map_of (notifications (QueueNotification_calls ?m1 rest)) ?k = Some y"
      "y = ?n1 \<or> (\<exists>n\<in>fst ` set rest. y = n\<lparr>n_timestamp := tstamp\<rparr>)"
      "last_status ?n1 \<le> last_status y"
      "\<forall>n\<in>fst ` set rest. last_status n \<le> last_status y"
    by blast
  have fin: "map_of (notifications ?final) ?k = Some y"
    using y(1) by (simp add: cs c)
  from y(2) obtain b where b: "b \<in> fst ` set cs" "y = b\<lparr>n_timestamp := tstamp\<rparr>"
    by (auto simp: cs c)
  have mx: "\<forall>n'\<in>fst ` set cs. last_status n' \<le> last_status b"
    using y(3,4) b(2) by (auto simp: cs c)
  have first: "\<exists>n\<in>fst ` set cs.
      map_of (notifications ?final) ?k = Some (n\<lparr>n_timestamp := tstamp\<rparr>) \<and>
      (\<forall>n'\<in>fst ` set cs. last_status n' \<le> last_status n)"
    using b fin mx by blast
  from fin have "(?k, y) \<in> set (notifications ?final)" by (rule map_of_SomeD)
  then have "?k \<in> fst ` set (notifications ?final)" by (rule rev_image_eqI) simp
  from one_entry_per_key [OF QueueNotification_calls_distinct [OF dk] this]
  have one: "length (filter (\<lambda>kv. fst kv = ?k) (notifications ?final)) = 1" .
  from first one QueueNotification_idempotent show ?thesis by (intro conjI)
qed

theorem one_notification_per_key_witness:
  "map_of (notifications (QueueNotification_calls example_manager
      [(example_notification 3, Some 5), (example_notification 7, Some 5),
       (example_notification 5, Some 5)])) ''F:1!5''
     = Some ((example_notification 7)\<lparr>n_timestamp := Some 5\<rparr>) \<and>
   length (filter (\<lambda>kv. fst kv = ''F:1!5'') (notifications (QueueNotification_calls example_manager
      [(example_notification 3, Some 5), (example_notification 7, Some 5),
       (example_notification 5, Some 5)]))) = 1"
proof -
  let ?cs = "[(example_notification 3, Some 5), (example_notification 7, Some 5),
       (example_notification 5, Some 5)]"
  have k: "notification_key ''F:1'' (Some 5) = ''F:1!5''"
    by (simp add: notification_key_def str_int_def digit_char_def)
  have same: "list_all (\<lambda>c. n_session_id (fst c) = ''F:1'' \<and>
      effective_timestamp example_manager (snd c) = Some 5) ?cs"
    by (simp add: example_notification_def effective_timestamp_def)
  have dk: "distinct (map fst (notifications example_manager))"
    and fresh: "notification_key ''F:1'' (Some 5) \<notin> fst ` set (notifications example_manager)"
    by (simp_all add: example_manager_def)
  have ne: "?cs \<noteq> []" and sid: "''F:1'' \<noteq> []" by simp_all
  from one_notification_per_key [OF ne sid same dk fresh,
      where mgr = example_manager and ntf = "example_notification 3" and stamp = "Some 5"]
  have "(\<exists>n\<in>fst ` set ?cs.
            map_of (notifications (QueueNotification_calls example_manager ?cs)) ''F:1!5''
              = Some (n\<lparr>n_timestamp := Some 5\<rparr>) \<and>
            (\<forall>n'\<in>fst ` set ?cs. last_status n' \<le> last_status n)) \<and>
         length (filter (\<lambda>kv. fst kv = ''F:1!5'')
                   (notifications (QueueNotification_calls example_manager ?cs))) = 1"
    unfolding k by simp
  then show ?thesis
    by (auto simp: example_notification_def)
qed


subsection \<open>Lemmas about the dispatcher\<close>







subsection \<open>Lemmas about the commit\<close>





















end
